theory Spec2Isabelle
  imports Main
begin

section \<open>Host-language strings and arrays\<close>

text \<open>
  A JavaScript string is modelled as a \<^typ>\<open>string\<close>: one \<^typ>\<open>char\<close> per code unit, so
  \<open>length\<close> is the \<open>.length\<close> of the source. Numbers that hold lines, columns, offsets and
  versions are \<^typ>\<open>int\<close> (they may be negative on input); indices into arrays are
  converted with \<open>nat\<close> only where the source has already clamped them.
\<close>

abbreviation CR :: char where "CR \<equiv> CHR 0x0D"
abbreviation LF :: char where "LF \<equiv> CHR 0x0A"

text \<open>\<open>String.prototype.substring\<close>: both indices are clamped into \<open>[0, length]\<close> and
  swapped when the first exceeds the second; the one-argument form runs to the end.\<close>

definition clampIndex :: "int \<Rightarrow> nat \<Rightarrow> nat" where
  "clampIndex i n = nat (max 0 (min i (int n)))"

definition substring :: "string \<Rightarrow> int \<Rightarrow> int \<Rightarrow> string" where
  "substring s a b =
     (let a' = clampIndex a (length s); b' = clampIndex b (length s)
      in take (max a' b' - min a' b') (drop (min a' b') s))"

definition substringFrom :: "string \<Rightarrow> int \<Rightarrow> string" where
  "substringFrom s a = drop (clampIndex a (length s)) s"

text \<open>\<open>Array.prototype.join\<close> with a separator.\<close>

fun join :: "string \<Rightarrow> string list \<Rightarrow> string" where
  "join sep [] = []"
| "join sep [x] = x"
| "join sep (x # y # ys) = x @ sep @ join sep (y # ys)"

text \<open>\<open>s.split(/\r\n|\r|\n/)\<close>: the separators are found left to right, \<open>\r\n\<close> is tried
  before \<open>\r\<close> at each place, and the pieces between them are returned; the pattern never
  matches the empty string, so the result always has at least one piece.\<close>

fun splitLines :: "string \<Rightarrow> string list" where
  "splitLines [] = [[]]"
| "splitLines (c # cs) =
     (if c = CR \<and> cs \<noteq> [] \<and> hd cs = LF then [] # splitLines (tl cs)
      else if c = CR \<or> c = LF then [] # splitLines cs
      else (case splitLines cs of [] \<Rightarrow> [[c]] | l # ls \<Rightarrow> (c # l) # ls))"

text \<open>\<open>String.prototype.includes\<close>.\<close>

fun startsWith :: "string \<Rightarrow> string \<Rightarrow> bool" where
  "startsWith s [] = True"
| "startsWith [] (d # ds) = False"
| "startsWith (c # cs) (d # ds) = (c = d \<and> startsWith cs ds)"

fun includesStr :: "string \<Rightarrow> string \<Rightarrow> bool" where
  "includesStr [] sub = startsWith [] sub"
| "includesStr (c # cs) sub = (startsWith (c # cs) sub \<or> includesStr cs sub)"

text \<open>\<open>Array.prototype.splice(start, deleteCount, ...items)\<close>: a negative start counts from
  the end, and both numbers are clamped to the array.\<close>

definition arraySplice :: "'a list \<Rightarrow> int \<Rightarrow> int \<Rightarrow> 'a list \<Rightarrow> 'a list" where
  "arraySplice xs start deleteCount items =
     (let len = int (length xs);
          s = (if start < 0 then max (len + start) 0 else min start len);
          d = min (max deleteCount 0) (len - s)
      in take (nat s) xs @ items @ drop (nat (s + d)) xs)"

section \<open>Positions, ranges and the line buffer\<close>

record Position =
  line :: int
  column :: int

record Range =
  start :: Position
  end' :: Position

record LineBuffer =
  lines :: "string list"
  version :: int
  lineEndings :: string

text \<open>Reading \<open>.length\<close> of \<open>undefined\<close> (an array read out of range) raises a
  \<open>TypeError\<close>; \<open>getLineContent\<close> throws its own error for a line out of bounds.\<close>

datatype error = TypeError | LineOutOfBounds int

definition bindE :: "error + 'a \<Rightarrow> ('a \<Rightarrow> error + 'b) \<Rightarrow> error + 'b" where
  "bindE m f = (case m of Inl e \<Rightarrow> Inl e | Inr x \<Rightarrow> f x)"

definition lineCount :: "LineBuffer \<Rightarrow> int" where
  "lineCount b = int (length (lines b))"

definition getText :: "LineBuffer \<Rightarrow> string" where
  "getText b = join (lineEndings b) (lines b)"

definition setText :: "LineBuffer \<Rightarrow> string \<Rightarrow> LineBuffer" where
  "setText b content =
     (let le = (if includesStr content [CR, LF] then [CR, LF]
                else if includesStr content [CR] then [CR]
                else [LF]);
          ls = splitLines content;
          ls' = (if length ls = 0 then [[]] else ls)
      in \<lparr>lines = ls', version = version b + 1, lineEndings = le\<rparr>)"

text \<open>The constructor: the field initialisers, the assignment of the \<open>lineEnding\<close>
  argument, then \<open>setText\<close>.\<close>

definition new_LineBuffer :: "string \<Rightarrow> string \<Rightarrow> LineBuffer" where
  "new_LineBuffer content lineEnding =
     setText \<lparr>lines = [[]], version = 0, lineEndings = lineEnding\<rparr> content"

definition validatePosition :: "LineBuffer \<Rightarrow> Position \<Rightarrow> error + Position" where
  "validatePosition b position =
     (let l = max 0 (min (line position) (int (length (lines b)) - 1))
      in if nat l < length (lines b)
         then (let maxColumn = int (length (lines b ! nat l));
                   c = max 0 (min (column position) maxColumn)
               in Inr \<lparr>line = l, column = c\<rparr>)
         else Inl TypeError)"

definition validateRange :: "LineBuffer \<Rightarrow> Range \<Rightarrow> error + Range" where
  "validateRange b rng =
     bindE (validatePosition b (start rng)) (\<lambda>s.
     bindE (validatePosition b (end' rng)) (\<lambda>e.
       if line s > line e \<or> (line s = line e \<and> column s > column e)
       then Inr \<lparr>start = e, end' = s\<rparr>
       else Inr \<lparr>start = s, end' = e\<rparr>))"

text \<open>\<open>getTextRange\<close>: the loop over the lines strictly between the two ends pushes
  \<open>lines[i]\<close> for \<open>start.line < i < end.line\<close>, which is the slice taken here.\<close>

definition getTextRange :: "LineBuffer \<Rightarrow> Range \<Rightarrow> error + string" where
  "getTextRange b rng =
     bindE (validateRange b rng) (\<lambda>r.
       let s = start r; e = end' r in
       if line s = line e
       then Inr (substring (lines b ! nat (line s)) (column s) (column e))
       else Inr (join (lineEndings b)
              ([substringFrom (lines b ! nat (line s)) (column s)]
               @ take (nat (line e) - nat (line s) - 1) (drop (nat (line s) + 1) (lines b))
               @ [substring (lines b ! nat (line e)) 0 (column e)])))"

definition getLineContent :: "LineBuffer \<Rightarrow> int \<Rightarrow> error + string" where
  "getLineContent b l =
     (if l < 0 \<or> l \<ge> int (length (lines b)) then Inl (LineOutOfBounds l)
      else Inr (lines b ! nat l))"

definition getLineLength :: "LineBuffer \<Rightarrow> int \<Rightarrow> error + int" where
  "getLineLength b l =
     bindE (getLineContent b l) (\<lambda>content.
       let isLastLine = (l = int (length (lines b)) - 1)
       in Inr (int (length content) + (if isLastLine then 0 else int (length (lineEndings b)))))"

section \<open>Mutations\<close>

text \<open>\<open>insertText\<close> returns the range of the inserted text and the buffer after the
  mutation. \<open>insertLines.slice(1, -1)\<close> is \<open>butlast (tl insertLines)\<close>.\<close>

definition insertText :: "LineBuffer \<Rightarrow> Position \<Rightarrow> string \<Rightarrow> error + (Range \<times> LineBuffer)" where
  "insertText b position text =
     bindE (validatePosition b position) (\<lambda>validPosition.
       let insertLines = splitLines text;
           l = nat (line validPosition);
           ln = lines b ! l
       in if length insertLines = 1
          then Inr (\<lparr>start = validPosition,
                     end' = \<lparr>line = line validPosition,
                             column = column validPosition + int (length text)\<rparr>\<rparr>,
                    b\<lparr>lines := (lines b)[l := substring ln 0 (column validPosition) @ text
                                              @ substringFrom ln (column validPosition)],
                      version := version b + 1\<rparr>)
          else (let before = substring ln 0 (column validPosition);
                    after = substringFrom ln (column validPosition);
                    lines1 = (lines b)[l := before @ hd insertLines];
                    middleLines = butlast (tl insertLines);
                    lines2 = arraySplice lines1 (line validPosition + 1) 0 middleLines;
                    lastInsertLine = last insertLines;
                    lines3 = arraySplice lines2 (line validPosition + int (length insertLines) - 1) 0
                               [lastInsertLine @ after]
                in Inr (\<lparr>start = validPosition,
                          end' = \<lparr>line = line validPosition + int (length insertLines) - 1,
                                  column = int (length lastInsertLine)
                                    + (if length insertLines = 1 then column validPosition else 0)\<rparr>\<rparr>,
                         b\<lparr>lines := lines3, version := version b + 1\<rparr>)))"

text \<open>\<open>deleteText\<close> returns the deleted text and the buffer after the mutation.\<close>

definition deleteText :: "LineBuffer \<Rightarrow> Range \<Rightarrow> error + (string \<times> LineBuffer)" where
  "deleteText b rng =
     bindE (validateRange b rng) (\<lambda>validRange.
     bindE (getTextRange b validRange) (\<lambda>deletedText.
       let s = start validRange; e = end' validRange in
       if line s = line e
       then (let ln = lines b ! nat (line s)
             in Inr (deletedText,
                     b\<lparr>lines := (lines b)[nat (line s) :=
                                   substring ln 0 (column s) @ substringFrom ln (column e)],
                       version := version b + 1\<rparr>))
       else (let startLine = lines b ! nat (line s);
                 endLine = lines b ! nat (line e);
                 lines1 = (lines b)[nat (line s) :=
                            substring startLine 0 (column s) @ substringFrom endLine (column e)]
             in Inr (deletedText,
                     b\<lparr>lines := arraySplice lines1 (line s + 1) (line e - line s) [],
                       version := version b + 1\<rparr>))))"

definition replaceText :: "LineBuffer \<Rightarrow> Range \<Rightarrow> string \<Rightarrow> error + (Range \<times> LineBuffer)" where
  "replaceText b rng text =
     bindE (deleteText b rng) (\<lambda>(deleted, b1). insertText b1 (start rng) text)"

section \<open>Offsets\<close>

lemma bindE_cong [fundef_cong]:
  "m = m' \<Longrightarrow> (\<And>x. m' = Inr x \<Longrightarrow> f x = f' x) \<Longrightarrow> bindE m f = bindE m' f'"
  by (auto simp: bindE_def split: sum.splits)

text \<open>\<open>positionToOffset\<close>: the loop adds the lengths of the lines before the validated
  line; \<open>offsetToPosition\<close>: the loop walks the lines until the running offset passes the
  requested one, and falls back to the end of the last line.\<close>

function positionToOffset_loop :: "LineBuffer \<Rightarrow> int \<Rightarrow> int \<Rightarrow> int \<Rightarrow> error + int" where
  "positionToOffset_loop b n l offset =
     (if l < n
      then bindE (getLineLength b l) (\<lambda>len. positionToOffset_loop b n (l + 1) (offset + len))
      else Inr offset)"
  by pat_completeness auto
termination
  by (relation "measure (\<lambda>(b, n, l, offset). nat (n - l))") auto

definition positionToOffset :: "LineBuffer \<Rightarrow> Position \<Rightarrow> error + int" where
  "positionToOffset b position =
     bindE (validatePosition b position) (\<lambda>validPosition.
     bindE (positionToOffset_loop b (line validPosition) 0 0) (\<lambda>offset.
       Inr (offset + column validPosition)))"

function offsetToPosition_loop :: "LineBuffer \<Rightarrow> int \<Rightarrow> int \<Rightarrow> int \<Rightarrow> error + Position" where
  "offsetToPosition_loop b offset l currentOffset =
     (if l < int (length (lines b))
      then bindE (getLineLength b l) (\<lambda>lineLength.
             if currentOffset + lineLength > offset
             then Inr \<lparr>line = l, column = offset - currentOffset\<rparr>
             else offsetToPosition_loop b offset (l + 1) (currentOffset + lineLength))
      else (let lastLine = int (length (lines b)) - 1
            in if 0 \<le> lastLine
               then Inr \<lparr>line = lastLine, column = int (length (lines b ! nat lastLine))\<rparr>
               else Inl TypeError))"
  by pat_completeness auto
termination
  by (relation "measure (\<lambda>(b, offset, l, currentOffset). nat (int (length (lines b)) - l))") auto

definition offsetToPosition :: "LineBuffer \<Rightarrow> int \<Rightarrow> error + Position" where
  "offsetToPosition b offset = offsetToPosition_loop b offset 0 0"

text \<open>The offset at which line \<open>k\<close> starts: every earlier line with one separator each.\<close>

definition lineStart :: "LineBuffer \<Rightarrow> nat \<Rightarrow> int" where
  "lineStart b k = (\<Sum>i<k. int (length (lines b ! i)) + int (length (lineEndings b)))"

section \<open>Word range at a position\<close>

text \<open>\<open>\w\<close> in a pattern without the \<open>u\<close> and \<open>i\<close> flags: \<open>[A-Za-z0-9_]\<close>.\<close>

definition isWordChar :: "char \<Rightarrow> bool" where
  "isWordChar c =
     (let n = (of_char c :: nat)
      in (65 \<le> n \<and> n \<le> 90) \<or> (97 \<le> n \<and> n \<le> 122) \<or> (48 \<le> n \<and> n \<le> 57) \<or> n = 95)"

text \<open>\<open>pattern.exec(line)\<close> for the default pattern \<open>/\w+/g\<close> with \<open>pattern.lastIndex = li\<close>:
  the leftmost longest run of word characters that starts at or after \<open>li\<close>, as its start
  index and its end index; the end index is the next \<open>lastIndex\<close>. \<open>None\<close> is \<open>null\<close>.\<close>

definition wordExec :: "string \<Rightarrow> nat \<Rightarrow> (nat \<times> nat) option" where
  "wordExec ln li =
     (if li > length ln then None
      else (case dropWhile (\<lambda>c. \<not> isWordChar c) (drop li ln) of
              [] \<Rightarrow> None
            | c # cs \<Rightarrow>
                (let index = length ln - length (c # cs)
                 in Some (index, index + length (takeWhile isWordChar (c # cs))))))"

lemma wordExec_Some:
  assumes "wordExec ln li = Some (s, e)"
  shows "li \<le> s \<and> s < e \<and> e \<le> length ln"
proof -
  from assms obtain c cs where li: "li \<le> length ln"
    and dw: "dropWhile (\<lambda>c. \<not> isWordChar c) (drop li ln) = c # cs"
    and s: "s = length ln - length (c # cs)"
    and e: "e = s + length (takeWhile isWordChar (c # cs))"
    by (auto simp: wordExec_def Let_def split: if_splits list.splits)
  have "length (c # cs) \<le> length (drop li ln)"
    unfolding dw [symmetric] by (rule length_dropWhile_le)
  then have le: "length (c # cs) \<le> length ln - li" by simp
  have "isWordChar c"
    using hd_dropWhile [of "\<lambda>c. \<not> isWordChar c" "drop li ln"] dw by simp
  then have "0 < length (takeWhile isWordChar (c # cs))" by simp
  moreover have "length (takeWhile isWordChar (c # cs)) \<le> length (c # cs)"
    by (rule length_takeWhile_le)
  ultimately show ?thesis
    using li le s e by linarith
qed

text \<open>The \<open>while\<close> loop of \<open>getWordRangeAtPosition\<close> over the default pattern (the
  method is called without a \<open>wordPattern\<close> argument), and the method itself.
  \<open>!line\<close> holds of the empty string.\<close>

function wordLoop :: "string \<Rightarrow> int \<Rightarrow> nat \<Rightarrow> (nat \<times> nat) option" where
  "wordLoop ln col li =
     (case wordExec ln li of
        None \<Rightarrow> None
      | Some (s, e) \<Rightarrow>
          if col \<ge> int s \<and> col \<le> int e then Some (s, e)
          else wordLoop ln col e)"
  by pat_completeness auto
termination
proof (relation "measure (\<lambda>(ln, col, li). length ln - li)")
  show "wf (measure (\<lambda>(ln, col, li). length ln - li))" by simp
next
  fix ln :: string and col :: int and li :: nat and x2 :: "nat \<times> nat" and s e :: nat
  assume "wordExec ln li = Some x2" "(s, e) = x2"
  then have "wordExec ln li = Some (s, e)" by simp
  from wordExec_Some [OF this]
  show "((ln, col, e), ln, col, li) \<in> measure (\<lambda>(ln, col, li). length ln - li)"
    by auto
qed

definition getWordRangeAtPosition :: "LineBuffer \<Rightarrow> Position \<Rightarrow> error + Range option" where
  "getWordRangeAtPosition b position =
     bindE (validatePosition b position) (\<lambda>validPosition.
       let ln = lines b ! nat (line validPosition)
       in if ln = [] \<or> column validPosition \<ge> int (length ln) then Inr None
          else Inr (map_option
                 (\<lambda>(s, e). \<lparr>start = \<lparr>line = line validPosition, column = int s\<rparr>,
                             end' = \<lparr>line = line validPosition, column = int e\<rparr>\<rparr>)
                 (wordLoop ln (column validPosition) 0)))"

text \<open>All the matches of the word pattern on a line from \<open>lastIndex = li\<close> on, in the order
  in which repeated \<open>exec\<close> calls find them; \<open>containsColumn\<close> is the inclusive test of
  the claim, and \<open>wordRange\<close> the range on line \<open>l\<close> of a match.\<close>

function wordMatches :: "string \<Rightarrow> nat \<Rightarrow> (nat \<times> nat) list" where
  "wordMatches ln li =
     (case wordExec ln li of
        None \<Rightarrow> []
      | Some (s, e) \<Rightarrow> (s, e) # wordMatches ln e)"
  by pat_completeness auto
termination
proof (relation "measure (\<lambda>(ln, li). length ln - li)")
  show "wf (measure (\<lambda>(ln, li). length ln - li))" by simp
next
  fix ln :: string and li :: nat and x2 :: "nat \<times> nat" and s e :: nat
  assume "wordExec ln li = Some x2" "(s, e) = x2"
  then have "wordExec ln li = Some (s, e)" by simp
  from wordExec_Some [OF this]
  show "((ln, e), ln, li) \<in> measure (\<lambda>(ln, li). length ln - li)"
    by auto
qed

definition containsColumn :: "int \<Rightarrow> nat \<times> nat \<Rightarrow> bool" where
  "containsColumn col m = (int (fst m) \<le> col \<and> col \<le> int (snd m))"

definition wordRange :: "int \<Rightarrow> nat \<times> nat \<Rightarrow> Range" where
  "wordRange l m = \<lparr>start = \<lparr>line = l, column = int (fst m)\<rparr>,
                    end' = \<lparr>line = l, column = int (snd m)\<rparr>\<rparr>"

section \<open>Search\<close>

text \<open>The options of \<open>findNext\<close> and \<open>findAll\<close>; a field left out reads as \<open>false\<close>.\<close>

record FindOptions =
  caseSensitive :: bool
  wholeWord :: bool
  regex :: bool

definition defaultOptions :: FindOptions where
  "defaultOptions = \<lparr>caseSensitive = False, wholeWord = False, regex = False\<rparr>"

text \<open>\<open>RegExp\<close> is a built-in of the host language. A compiled pattern is modelled by its
  \<open>exec\<close> under the \<open>g\<close> flag: given the text and \<open>lastIndex\<close> it returns the index and
  the length of the match, or \<open>None\<close> for \<open>null\<close>. The constructor is a parameter
  \<open>newRegExp source flags\<close> of the search functions; \<open>None\<close> is the \<open>SyntaxError\<close> it
  throws for an invalid pattern.\<close>

type_synonym RegExp = "string \<Rightarrow> nat \<Rightarrow> (nat \<times> nat) option"

abbreviation backslash :: char where "backslash \<equiv> CHR 0x5C"

text \<open>\<open>searchText.replace(/[.*+?^${}()|[\]\\]/g, '\\$&')\<close>.\<close>

definition regexSpecial :: "char \<Rightarrow> bool" where
  "regexSpecial c = (c \<in> set ''.*+?^${}()|[]'' \<or> c = backslash)"

definition escapeRegExp :: "string \<Rightarrow> string" where
  "escapeRegExp s = concat (map (\<lambda>c. if regexSpecial c then [backslash, c] else [c]) s)"

text \<open>\<open>findNext\<close>: only the construction of the pattern is inside the \<open>try\<close>; the
  \<open>catch\<close> returns \<open>null\<close>.\<close>

definition findNext ::
  "(string \<Rightarrow> string \<Rightarrow> RegExp option) \<Rightarrow> LineBuffer \<Rightarrow> string \<Rightarrow> Position \<Rightarrow> FindOptions
     \<Rightarrow> error + Range option" where
  "findNext newRegExp b searchText startPosition options =
     (let flags = (if caseSensitive options then ''g'' else ''gi'');
          source = (if regex options then searchText
                    else (let escapedText = escapeRegExp searchText
                          in if wholeWord options
                             then [backslash, CHR ''b''] @ escapedText @ [backslash, CHR ''b'']
                             else escapedText))
      in case newRegExp source flags of
           None \<Rightarrow> Inr None
         | Some pattern \<Rightarrow>
             bindE (positionToOffset b startPosition) (\<lambda>startOffset.
               let text = getText b in
               case pattern text (nat startOffset) of
                 Some (index, len) \<Rightarrow>
                   bindE (offsetToPosition b (int index)) (\<lambda>matchStart.
                   bindE (offsetToPosition b (int index + int len)) (\<lambda>matchEnd.
                     Inr (Some \<lparr>start = matchStart, end' = matchEnd\<rparr>)))
               | None \<Rightarrow> Inr None))"

text \<open>\<open>findAll\<close>: the \<open>while (true)\<close> loop may run forever, so it is a partial
  function; \<open>None\<close> is a call that does not return.\<close>

partial_function (option) findAll_loop ::
  "(string \<Rightarrow> string \<Rightarrow> RegExp option) \<Rightarrow> LineBuffer \<Rightarrow> string \<Rightarrow> FindOptions
     \<Rightarrow> Position \<Rightarrow> Range list \<Rightarrow> (error + Range list) option" where
  "findAll_loop newRegExp b searchText options position ranges =
     (case findNext newRegExp b searchText position options of
        Inl err \<Rightarrow> Some (Inl err)
      | Inr None \<Rightarrow> Some (Inr ranges)
      | Inr (Some r) \<Rightarrow> findAll_loop newRegExp b searchText options (end' r) (ranges @ [r]))"

definition findAll ::
  "(string \<Rightarrow> string \<Rightarrow> RegExp option) \<Rightarrow> LineBuffer \<Rightarrow> string \<Rightarrow> FindOptions
     \<Rightarrow> (error + Range list) option" where
  "findAll newRegExp b searchText options =
     findAll_loop newRegExp b searchText options \<lparr>line = 0, column = 0\<rparr> []"

declare findAll_loop.simps [code]

text \<open>An instance of the constructor for the patterns \<open>findNext\<close> builds from an ASCII
  search text that is taken literally: each character of the source is an ASCII
  character that is not special, or a backslash followed by a special character. For
  those, \<open>exec\<close> finds the leftmost occurrence of the literal at or after \<open>lastIndex\<close>,
  comparing upper-cased characters under the \<open>i\<close> flag. Other sources are not interpreted:
  the instance rejects them all, as the host language rejects \<open>(\<close>, the only one of them
  used below.\<close>

definition asciiUpper :: "char \<Rightarrow> char" where
  "asciiUpper c =
     (let n = (of_char c :: nat) in if 97 \<le> n \<and> n \<le> 122 then char_of (n - 32) else c)"

fun literalSource :: "string \<Rightarrow> string option" where
  "literalSource [] = Some []"
| "literalSource (c # cs) =
     (if c = backslash
      then (case cs of
              [] \<Rightarrow> None
            | d # ds \<Rightarrow> if regexSpecial d then map_option ((#) d) (literalSource ds) else None)
      else if regexSpecial c \<or> (of_char c :: nat) \<ge> 128 then None
      else map_option ((#) c) (literalSource cs))"

definition literalExec :: "bool \<Rightarrow> string \<Rightarrow> RegExp" where
  "literalExec ignoreCase needle text lastIndex =
     (let canon = (if ignoreCase then map asciiUpper else id)
      in map_option (\<lambda>i. (i, length needle))
           (find (\<lambda>i. canon (take (length needle) (drop i text)) = canon needle)
                 [lastIndex ..< Suc (length text) - length needle]))"

definition literalRegExp :: "string \<Rightarrow> string \<Rightarrow> RegExp option" where
  "literalRegExp source flags =
     (if flags = ''g'' \<or> flags = ''gi''
      then map_option (literalExec (flags = ''gi'')) (literalSource source)
      else None)"

section \<open>Commands and the command history\<close>

text \<open>The two command classes as one datatype. A \<open>TextEditCommand\<close> holds its label, its
  range, the new text, and the state it records when it runs: the previous text, the
  actual range, and the \<open>executed\<close> and \<open>undone\<close> flags of \<open>UndoableCommand\<close>. All commands
  edit the one buffer that is passed along. A command object is a value here: a stack
  entry carries the state of its own command.\<close>

datatype UndoableCommand =
    TextEditCommand (label: string) (range': Range) (newText: string)
      (previousText: string) (actualRange: Range) (executed: bool) (undone: bool)
  | CompositeCommand (id': string) (label: string) (commands: "UndoableCommand list")
      (executed: bool) (undone: bool)

text \<open>The constructors: \<open>previousText = ''\<close>, \<open>actualRange = range\<close>, both flags false.\<close>

definition new_TextEditCommand :: "Range \<Rightarrow> string \<Rightarrow> string \<Rightarrow> UndoableCommand" where
  "new_TextEditCommand rng t lbl = TextEditCommand lbl rng t [] rng False False"

definition new_CompositeCommand :: "string \<Rightarrow> string \<Rightarrow> UndoableCommand list \<Rightarrow> UndoableCommand" where
  "new_CompositeCommand ident lbl cs = CompositeCommand ident lbl cs False False"

text \<open>\<open>execute\<close>, \<open>undo\<close> and \<open>redo\<close> of both classes; the list functions are the loops of
  \<open>CompositeCommand\<close> over its children (\<open>undo\<close> runs from the last child to the first).\<close>

fun command_execute :: "UndoableCommand \<Rightarrow> LineBuffer \<Rightarrow> error + (UndoableCommand \<times> LineBuffer)"
  and commands_execute ::
    "UndoableCommand list \<Rightarrow> LineBuffer \<Rightarrow> error + (UndoableCommand list \<times> LineBuffer)" where
  "command_execute (TextEditCommand l r t p a ex un) b =
     bindE (getTextRange b r) (\<lambda>previous.
     bindE (replaceText b r t) (\<lambda>(actual, b1).
       Inr (TextEditCommand l r t previous actual True False, b1)))"
| "command_execute (CompositeCommand i l cs ex un) b =
     bindE (commands_execute cs b) (\<lambda>(cs1, b1).
       Inr (CompositeCommand i l cs1 True False, b1))"
| "commands_execute [] b = Inr ([], b)"
| "commands_execute (c # cs) b =
     bindE (command_execute c b) (\<lambda>(c1, b1).
     bindE (commands_execute cs b1) (\<lambda>(cs1, b2).
       Inr (c1 # cs1, b2)))"

fun command_undo :: "UndoableCommand \<Rightarrow> LineBuffer \<Rightarrow> error + (UndoableCommand \<times> LineBuffer)"
  and commands_undo ::
    "UndoableCommand list \<Rightarrow> LineBuffer \<Rightarrow> error + (UndoableCommand list \<times> LineBuffer)" where
  "command_undo (TextEditCommand l r t p a ex un) b =
     (if \<not> ex then Inr (TextEditCommand l r t p a ex un, b)
      else bindE (replaceText b a p) (\<lambda>(restored, b1).
             Inr (TextEditCommand l r t p a False True, b1)))"
| "command_undo (CompositeCommand i l cs ex un) b =
     (if \<not> ex then Inr (CompositeCommand i l cs ex un, b)
      else bindE (commands_undo cs b) (\<lambda>(cs1, b1).
             Inr (CompositeCommand i l cs1 False True, b1)))"
| "commands_undo [] b = Inr ([], b)"
| "commands_undo (c # cs) b =
     bindE (commands_undo cs b) (\<lambda>(cs1, b1).
     bindE (command_undo c b1) (\<lambda>(c1, b2).
       Inr (c1 # cs1, b2)))"

fun command_redo :: "UndoableCommand \<Rightarrow> LineBuffer \<Rightarrow> error + (UndoableCommand \<times> LineBuffer)"
  and commands_redo ::
    "UndoableCommand list \<Rightarrow> LineBuffer \<Rightarrow> error + (UndoableCommand list \<times> LineBuffer)" where
  "command_redo (TextEditCommand l r t p a ex un) b =
     (if un then command_execute (TextEditCommand l r t p a True False) b
      else Inr (TextEditCommand l r t p a ex un, b))"
| "command_redo (CompositeCommand i l cs ex un) b =
     (if \<not> un then Inr (CompositeCommand i l cs ex un, b)
      else bindE (commands_redo cs b) (\<lambda>(cs1, b1).
             Inr (CompositeCommand i l cs1 True False, b1)))"
| "commands_redo [] b = Inr ([], b)"
| "commands_redo (c # cs) b =
     bindE (command_redo c b) (\<lambda>(c1, b1).
     bindE (commands_redo cs b1) (\<lambda>(cs1, b2).
       Inr (c1 # cs1, b2)))"

text \<open>\<open>CommandHistory\<close>: the top of a stack is the end of its list, as \<open>push\<close> and
  \<open>pop\<close> have it; \<open>shift\<close> removes the first entry. The events it emits have no effect
  on the stacks and are left out.\<close>

record CommandHistory =
  undoStack :: "UndoableCommand list"
  redoStack :: "UndoableCommand list"
  maxStackSize :: int

definition new_CommandHistory :: "int \<Rightarrow> CommandHistory" where
  "new_CommandHistory m = \<lparr>undoStack = [], redoStack = [], maxStackSize = m\<rparr>"

definition canUndo :: "CommandHistory \<Rightarrow> bool" where
  "canUndo h = (length (undoStack h) > 0)"

definition canRedo :: "CommandHistory \<Rightarrow> bool" where
  "canRedo h = (length (redoStack h) > 0)"

definition history_execute ::
  "CommandHistory \<Rightarrow> UndoableCommand \<Rightarrow> LineBuffer \<Rightarrow> error + (CommandHistory \<times> LineBuffer)" where
  "history_execute h command b =
     bindE (command_execute command b) (\<lambda>(command1, b1).
       let pushed = undoStack h @ [command1];
           trimmed = (if int (length pushed) > maxStackSize h then tl pushed else pushed)
       in Inr (h\<lparr>undoStack := trimmed, redoStack := []\<rparr>, b1))"

definition history_undo ::
  "CommandHistory \<Rightarrow> LineBuffer \<Rightarrow> error + (bool \<times> CommandHistory \<times> LineBuffer)" where
  "history_undo h b =
     (if \<not> canUndo h then Inr (False, h, b)
      else bindE (command_undo (last (undoStack h)) b) (\<lambda>(command1, b1).
             Inr (True, h\<lparr>undoStack := butlast (undoStack h),
                           redoStack := redoStack h @ [command1]\<rparr>, b1)))"

definition history_redo ::
  "CommandHistory \<Rightarrow> LineBuffer \<Rightarrow> error + (bool \<times> CommandHistory \<times> LineBuffer)" where
  "history_redo h b =
     (if \<not> canRedo h then Inr (False, h, b)
      else bindE (command_redo (last (redoStack h)) b) (\<lambda>(command1, b1).
             Inr (True, h\<lparr>undoStack := undoStack h @ [command1],
                           redoStack := butlast (redoStack h)\<rparr>, b1)))"

text \<open>A caller that hands a sequence of commands to \<open>CommandHistory.execute\<close>, one after
  the other.\<close>

fun history_executeAll ::
  "CommandHistory \<Rightarrow> UndoableCommand list \<Rightarrow> LineBuffer \<Rightarrow> error + (CommandHistory \<times> LineBuffer)" where
  "history_executeAll h [] b = Inr (h, b)"
| "history_executeAll h (c # cs) b =
     bindE (history_execute h c b) (\<lambda>(h1, b1). history_executeAll h1 cs b1)"

text \<open>The command as it was constructed: the recorded state reset. Two stack entries with
  the same \<open>idle\<close> form are the same command at different moments.\<close>

fun idle :: "UndoableCommand \<Rightarrow> UndoableCommand" where
  "idle (TextEditCommand l r t p a ex un) = TextEditCommand l r t [] r False False"
| "idle (CompositeCommand i l cs ex un) = CompositeCommand i l (map idle cs) False False"

text \<open>\<open>BuiltInCommands.createInsertTextCommand\<close>.\<close>

definition createInsertTextCommand :: "Position \<Rightarrow> string \<Rightarrow> UndoableCommand" where
  "createInsertTextCommand position t =
     new_TextEditCommand \<lparr>start = position, end' = position\<rparr> t
       (''Insert '' @ [CHR 0x22] @ t @ [CHR 0x22])"

section \<open>Buffer states\<close>

text \<open>The states a buffer can be in: what the constructor builds, and what the four
  mutating methods make of such a state.\<close>

inductive buffer_state :: "LineBuffer \<Rightarrow> bool" where
  constructed: "buffer_state (new_LineBuffer content lineEnding)"
| after_setText: "buffer_state b \<Longrightarrow> buffer_state (setText b content)"
| after_insertText:
    "buffer_state b \<Longrightarrow> insertText b position t = Inr (r, b') \<Longrightarrow> buffer_state b'"
| after_deleteText:
    "buffer_state b \<Longrightarrow> deleteText b rng = Inr (deleted, b') \<Longrightarrow> buffer_state b'"
| after_replaceText:
    "buffer_state b \<Longrightarrow> replaceText b rng text = Inr (r, b') \<Longrightarrow> buffer_state b'"

text \<open>What every such state satisfies: at least one line, no line break inside a line,
  and one of the three line-ending styles.\<close>

definition noBreak :: "string \<Rightarrow> bool" where
  "noBreak s = (CR \<notin> set s \<and> LF \<notin> set s)"

definition buffer_inv :: "LineBuffer \<Rightarrow> bool" where
  "buffer_inv b =
     (lines b \<noteq> [] \<and> list_all noBreak (lines b)
      \<and> (lineEndings b = [CR, LF] \<or> lineEndings b = [CR] \<or> lineEndings b = [LF]))"

text \<open>A position is in bounds of a buffer when its line exists and its column lies
  between 0 and the length of that line, both included.\<close>

definition inBounds :: "LineBuffer \<Rightarrow> Position \<Rightarrow> bool" where
  "inBounds b p =
     (0 \<le> line p \<and> line p < int (length (lines b))
      \<and> 0 \<le> column p \<and> column p \<le> int (length (lines b ! nat (line p))))"


section \<open>Basic facts\<close>

lemma bindE_Inr [simp]: "bindE (Inr x) f = f x"
  by (simp add: bindE_def)

lemma bindE_Inl [simp]: "bindE (Inl e) f = Inl e"
  by (simp add: bindE_def)

lemma splitLines_nonempty [simp]: "splitLines s \<noteq> []"
  by (induction s rule: splitLines.induct) (auto split: list.splits)

lemma splitLines_noBreak: "list_all noBreak (splitLines s)"
  by (induction s rule: splitLines.induct) (auto simp: noBreak_def split: list.splits)

lemma splitLines_single: "noBreak s \<Longrightarrow> splitLines s = [s]"
  by (induction s rule: splitLines.induct) (auto simp: noBreak_def split: list.splits)

lemma splitLines_length1: "length (splitLines s) = 1 \<Longrightarrow> noBreak s"
  by (induction s rule: splitLines.induct) (auto simp: noBreak_def split: list.splits if_splits)

lemma substring_take: "0 \<le> c \<Longrightarrow> substring s 0 c = take (nat c) s"
  by (auto simp: substring_def clampIndex_def Let_def min_def max_def)

lemma substringFrom_drop: "0 \<le> c \<Longrightarrow> substringFrom s c = drop (nat c) s"
  by (auto simp: substringFrom_def clampIndex_def min_def max_def)

lemma substring_mid:
  "0 \<le> a \<Longrightarrow> a \<le> c \<Longrightarrow> substring s a c = take (nat c - nat a) (drop (nat a) s)"
  apply (auto simp: substring_def clampIndex_def Let_def min_def max_def)
  done

lemma splice_nat:
  "0 \<le> s \<Longrightarrow> s \<le> int (length xs) \<Longrightarrow> 0 \<le> d \<Longrightarrow>
   arraySplice xs s d items = take (nat s) xs @ items @ drop (nat s + nat d) xs"
  by (auto simp: arraySplice_def Let_def min_def max_def nat_add_distrib)

lemma validatePosition_inBounds:
  assumes "lines b \<noteq> []"
  shows "\<exists>q. validatePosition b p = Inr q \<and> inBounds b q"
proof -
  from assms have "nat (int (length (lines b)) - 1) < length (lines b)"
    by (cases "lines b") auto
  with assms show ?thesis
    by (auto simp: validatePosition_def inBounds_def Let_def min_def max_def)
qed

lemma validatePosition_id: "inBounds b p \<Longrightarrow> validatePosition b p = Inr p"
  by (auto simp: validatePosition_def inBounds_def Let_def min_def max_def)


lemma validateRange_ordered:
  assumes "inBounds b s" "inBounds b e"
    and "line s < line e \<or> (line s = line e \<and> column s \<le> column e)"
  shows "validateRange b \<lparr>start = s, end' = e\<rparr> = Inr \<lparr>start = s, end' = e\<rparr>"
  using assms by (auto simp: validateRange_def validatePosition_id)

lemma insertText_single:
  assumes "validatePosition b p = Inr vp" "inBounds b vp" "noBreak t"
  shows "insertText b p t =
    Inr (\<lparr>start = vp, end' = \<lparr>line = line vp, column = column vp + int (length t)\<rparr>\<rparr>,
         b\<lparr>lines := (lines b)[nat (line vp) :=
                 take (nat (column vp)) (lines b ! nat (line vp)) @ t
                 @ drop (nat (column vp)) (lines b ! nat (line vp))],
           version := version b + 1\<rparr>)"
  using assms
  by (simp add: insertText_def Let_def splitLines_single inBounds_def substring_take
      substringFrom_drop)

lemma splice_insert_at:
  "s = int (length pre) \<Longrightarrow> arraySplice (pre @ post) s 0 items = pre @ items @ post"
  by (simp add: arraySplice_def Let_def)

lemma splice_delete_at:
  "s = int (length pre) \<Longrightarrow> d = int (length mid) \<Longrightarrow>
   arraySplice (pre @ mid @ post) s d [] = pre @ post"
  by (simp add: arraySplice_def Let_def)

lemma insertText_multi:
  assumes "validatePosition b p = Inr vp" "inBounds b vp"
    and "splitLines t = s0 # rest" "rest \<noteq> []"
  shows "insertText b p t =
    Inr (\<lparr>start = vp,
          end' = \<lparr>line = line vp + int (length rest), column = int (length (last rest))\<rparr>\<rparr>,
         b\<lparr>lines := take (nat (line vp)) (lines b)
                 @ [take (nat (column vp)) (lines b ! nat (line vp)) @ s0]
                 @ butlast rest
                 @ [last rest @ drop (nat (column vp)) (lines b ! nat (line vp))]
                 @ drop (Suc (nat (line vp))) (lines b),
           version := version b + 1\<rparr>)"
proof -
  let ?l = "nat (line vp)" and ?c = "nat (column vp)" and ?L = "lines b"
  let ?ln = "?L ! ?l"
  from assms(2) have l: "?l < length ?L" and l0: "0 \<le> line vp" and c0: "0 \<le> column vp"
    by (auto simp: inBounds_def)
  define pre1 where "pre1 = take ?l ?L @ [take ?c ?ln @ s0]"
  define pre2 where "pre2 = pre1 @ butlast rest"
  define post where "post = drop (Suc ?l) ?L"
  have lines1: "?L[?l := take ?c ?ln @ s0] = pre1 @ post"
    using l by (simp add: upd_conv_take_nth_drop pre1_def post_def)
  have len1: "line vp + 1 = int (length pre1)"
    using l l0 by (simp add: pre1_def)
  have len2: "line vp + int (length rest) = int (length pre2)"
    using l l0 assms(4) by (simp add: pre2_def pre1_def)
  have s1: "arraySplice (pre1 @ post) (line vp + 1) 0 (butlast rest) = pre2 @ post"
    using splice_insert_at [OF len1] by (simp add: pre2_def)
  have s2: "arraySplice (pre2 @ post) (line vp + int (length rest)) 0
              [last rest @ drop ?c ?ln] = pre2 @ [last rest @ drop ?c ?ln] @ post"
    using splice_insert_at [OF len2] by simp
  have "insertText b p t =
    Inr (\<lparr>start = vp,
          end' = \<lparr>line = line vp + int (length rest),
                  column = int (length (last rest))\<rparr>\<rparr>,
         b\<lparr>lines := pre2 @ [last rest @ drop ?c ?ln] @ post, version := version b + 1\<rparr>)"
    using assms(1,3,4) c0
    by (simp add: insertText_def Let_def substring_take substringFrom_drop lines1 s1 s2
        del: append_assoc)
  then show ?thesis
    by (simp add: pre2_def pre1_def post_def)
qed


lemma getTextRange_single:
  assumes "inBounds b s" "inBounds b e" "line s = line e" "column s \<le> column e"
  shows "getTextRange b \<lparr>start = s, end' = e\<rparr> =
    Inr (take (nat (column e) - nat (column s)) (drop (nat (column s)) (lines b ! nat (line s))))"
  using assms
  by (simp add: getTextRange_def validateRange_ordered substring_mid inBounds_def)

lemma getTextRange_multi:
  assumes "inBounds b s" "inBounds b e" "line s < line e"
  shows "getTextRange b \<lparr>start = s, end' = e\<rparr> =
    Inr (join (lineEndings b)
          ([drop (nat (column s)) (lines b ! nat (line s))]
           @ take (nat (line e) - nat (line s) - 1) (drop (nat (line s) + 1) (lines b))
           @ [take (nat (column e)) (lines b ! nat (line e))]))"
  using assms
  by (simp add: getTextRange_def validateRange_ordered substring_take substringFrom_drop
      inBounds_def)

lemma deleteText_single:
  assumes "inBounds b s" "inBounds b e" "line s = line e" "column s \<le> column e"
  shows "deleteText b \<lparr>start = s, end' = e\<rparr> =
    Inr (take (nat (column e) - nat (column s)) (drop (nat (column s)) (lines b ! nat (line s))),
         b\<lparr>lines := (lines b)[nat (line s) :=
                 take (nat (column s)) (lines b ! nat (line s))
                 @ drop (nat (column e)) (lines b ! nat (line s))],
           version := version b + 1\<rparr>)"
  using assms
  by (simp add: deleteText_def Let_def validateRange_ordered getTextRange_single
      substring_take substringFrom_drop inBounds_def)

lemma update_middle:
  assumes "i < j" "j < length xs"
  shows "\<exists>mid. length mid = j - i \<and> xs[i := x] = take i xs @ [x] @ mid @ drop (Suc j) xs"
proof -
  let ?mid = "take (j - i) (drop (Suc i) xs)"
  have "length ?mid = j - i" using assms by simp
  moreover have "drop (Suc i) xs = ?mid @ drop (j - i) (drop (Suc i) xs)"
    by (simp only: append_take_drop_id)
  moreover have "drop (j - i) (drop (Suc i) xs) = drop (Suc j) xs"
    using assms by simp
  moreover have "xs[i := x] = take i xs @ x # drop (Suc i) xs"
    using assms by (intro upd_conv_take_nth_drop) simp
  ultimately show ?thesis by (metis append_Cons append_Nil)
qed

lemma deleteText_multi:
  assumes "inBounds b s" "inBounds b e" "line s < line e"
  shows "deleteText b \<lparr>start = s, end' = e\<rparr> =
    Inr (join (lineEndings b)
          ([drop (nat (column s)) (lines b ! nat (line s))]
           @ take (nat (line e) - nat (line s) - 1) (drop (nat (line s) + 1) (lines b))
           @ [take (nat (column e)) (lines b ! nat (line e))]),
         b\<lparr>lines := take (nat (line s)) (lines b)
                 @ [take (nat (column s)) (lines b ! nat (line s))
                    @ drop (nat (column e)) (lines b ! nat (line e))]
                 @ drop (Suc (nat (line e))) (lines b),
           version := version b + 1\<rparr>)"
proof -
  let ?ls = "nat (line s)" and ?le = "nat (line e)" and ?L = "lines b"
  let ?new = "take (nat (column s)) (?L ! ?ls) @ drop (nat (column e)) (?L ! ?le)"
  from assms have ls: "?ls < ?le" and le: "?le < length ?L" and s0: "0 \<le> line s"
    and cs: "0 \<le> column s" and ce: "0 \<le> column e"
    by (auto simp: inBounds_def)
  from update_middle [OF ls le] obtain mid
    where lm: "length mid = ?le - ?ls"
      and upd: "?L[?ls := ?new] = take ?ls ?L @ [?new] @ mid @ drop (Suc ?le) ?L"
    by blast
  have lsL: "?ls < length ?L"
    by (rule less_trans [OF ls le])
  have a: "line s + 1 = int (length (take ?ls ?L @ [?new]))"
    using lsL s0 by simp
  have "int (?le - ?ls) = int ?le - int ?ls"
    by (rule of_nat_diff [OF less_imp_le [OF ls]])
  moreover have "int ?le = line e" "int ?ls = line s"
    using s0 assms(3) by simp_all
  ultimately have b: "line e - line s = int (length mid)"
    unfolding lm by (simp only:)
  have sp: "arraySplice ((take ?ls ?L @ [?new]) @ mid @ drop (Suc ?le) ?L)
              (line s + 1) (line e - line s) []
            = (take ?ls ?L @ [?new]) @ drop (Suc ?le) ?L"
    by (rule splice_delete_at [OF a b])
  have vr: "validateRange b \<lparr>start = s, end' = e\<rparr> = Inr \<lparr>start = s, end' = e\<rparr>"
    using assms by (intro validateRange_ordered) auto
  have ne: "line s \<noteq> line e" using assms(3) by simp
  have "deleteText b \<lparr>start = s, end' = e\<rparr> =
      Inr (join (lineEndings b)
            ([drop (nat (column s)) (?L ! ?ls)]
             @ take (?le - ?ls - 1) (drop (?ls + 1) ?L)
             @ [take (nat (column e)) (?L ! ?le)]),
           b\<lparr>lines := arraySplice (?L[?ls := substring (?L ! ?ls) 0 (column s)
                                              @ substringFrom (?L ! ?le) (column e)])
                             (line s + 1) (line e - line s) [],
             version := version b + 1\<rparr>)"
    by (simp add: deleteText_def vr getTextRange_multi [OF assms] ne Let_def)
  also have "substring (?L ! ?ls) 0 (column s) @ substringFrom (?L ! ?le) (column e) = ?new"
    by (simp only: substring_take [OF cs] substringFrom_drop [OF ce])
  also have "?L[?ls := ?new] = (take ?ls ?L @ [?new]) @ mid @ drop (Suc ?le) ?L"
    using upd by simp
  finally show ?thesis
    unfolding sp by simp
qed

lemma roundtrip_single:
  assumes vp: "validatePosition b p = Inr vp" and ib: "inBounds b vp" and t: "noBreak t"
  shows "\<exists>r b1 d b2. insertText b p t = Inr (r, b1) \<and> deleteText b1 r = Inr (d, b2)
           \<and> b2 = b\<lparr>version := version b + 2\<rparr>"
proof -
  let ?l = "nat (line vp)" and ?c = "nat (column vp)" and ?L = "lines b"
  let ?ln = "?L ! ?l"
  let ?new = "take ?c ?ln @ t @ drop ?c ?ln"
  let ?e = "\<lparr>line = line vp, column = column vp + int (length t)\<rparr>"
  let ?b1 = "b\<lparr>lines := ?L[?l := ?new], version := version b + 1\<rparr>"
  from ib have l: "?l < length ?L" and l0: "0 \<le> line vp" and c0: "0 \<le> column vp"
    and c: "?c \<le> length ?ln"
    by (auto simp: inBounds_def)
  have ins: "insertText b p t = Inr (\<lparr>start = vp, end' = ?e\<rparr>, ?b1)"
    by (rule insertText_single [OF vp ib t])
  have ib1: "inBounds ?b1 vp" and ib2: "inBounds ?b1 ?e"
    using ib l by (auto simp: inBounds_def)
  have ce: "nat (column ?e) = ?c + length t"
    using c0 by (simp add: nat_add_distrib)
  have restore: "take ?c ?new @ drop (?c + length t) ?new = ?ln"
    using c by simp
  have "deleteText ?b1 \<lparr>start = vp, end' = ?e\<rparr> =
      Inr (take (nat (column ?e) - ?c) (drop ?c (lines ?b1 ! ?l)),
           ?b1\<lparr>lines := (lines ?b1)[?l := take ?c (lines ?b1 ! ?l)
                                          @ drop (nat (column ?e)) (lines ?b1 ! ?l)],
                version := version ?b1 + 1\<rparr>)"
    by (rule deleteText_single [OF ib1 ib2]) simp_all
  also have "lines ?b1 ! ?l = ?new" using l by simp
  finally have del: "deleteText ?b1 \<lparr>start = vp, end' = ?e\<rparr> =
      Inr (take (nat (column ?e) - ?c) (drop ?c ?new),
           ?b1\<lparr>lines := (lines ?b1)[?l := ?ln], version := version ?b1 + 1\<rparr>)"
    unfolding ce restore .
  have "?b1\<lparr>lines := (lines ?b1)[?l := ?ln], version := version ?b1 + 1\<rparr>
      = b\<lparr>version := version b + 2\<rparr>"
    by simp
  with ins del show ?thesis by metis
qed


lemma roundtrip_multi:
  assumes vp: "validatePosition b p = Inr vp" and ib: "inBounds b vp"
    and sp: "splitLines t = s0 # rest" and rest: "rest \<noteq> []"
  shows "\<exists>r b1 d b2. insertText b p t = Inr (r, b1) \<and> deleteText b1 r = Inr (d, b2)
           \<and> b2 = b\<lparr>version := version b + 2\<rparr>"
proof -
  let ?l = "nat (line vp)" and ?c = "nat (column vp)" and ?L = "lines b"
  let ?ln = "?L ! ?l"
  let ?first = "take ?c ?ln @ s0" and ?final = "last rest @ drop ?c ?ln"
  let ?e = "\<lparr>line = line vp + int (length rest), column = int (length (last rest))\<rparr>"
  define pre where "pre = take ?l ?L"
  define post where "post = drop (Suc ?l) ?L"
  define L1 where "L1 = pre @ [?first] @ butlast rest @ [?final] @ post"
  let ?b1 = "b\<lparr>lines := L1, version := version b + 1\<rparr>"
  from ib have l: "?l < length ?L" and l0: "0 \<le> line vp" and c0: "0 \<le> column vp"
    and c: "?c \<le> length ?ln"
    by (auto simp: inBounds_def)
  have lpre: "length pre = ?l" using l by (simp add: pre_def)
  have ins: "insertText b p t = Inr (\<lparr>start = vp, end' = ?e\<rparr>, ?b1)"
    using insertText_multi [OF vp ib sp rest] by (simp add: L1_def pre_def post_def)
  have le: "nat (line vp + int (length rest)) = ?l + length rest"
    using l0 by (simp add: nat_add_distrib)
  have n1: "L1 ! ?l = ?first"
    unfolding L1_def using lpre by (simp add: nth_append)
  have "L1 = (pre @ [?first] @ butlast rest) @ [?final] @ post"
    by (simp add: L1_def)
  moreover have lmid: "length (pre @ [?first] @ butlast rest) = ?l + length rest"
    using lpre rest by simp
  ultimately have n2: "L1 ! (?l + length rest) = ?final"
    and tk: "take (?l + length rest) L1 = pre @ [?first] @ butlast rest"
    and dr: "drop (Suc (?l + length rest)) L1 = post"
    by (simp_all add: nth_append del: append_assoc)
  have tk1: "take ?l L1 = pre"
    unfolding L1_def using lpre by simp
  have len1: "length L1 = length ?L + length rest"
  proof -
    have "length L1 = length pre + 1 + length (butlast rest) + 1 + length post"
      by (simp add: L1_def)
    moreover have "length (butlast rest) + 1 = length rest"
      using rest by (cases rest rule: rev_cases) simp_all
    moreover have "length post + ?l + 1 = length ?L"
      using l by (simp add: post_def)
    ultimately show ?thesis
      unfolding lpre by linarith
  qed
  have ib1: "inBounds ?b1 vp"
    using ib l c by (simp add: inBounds_def n1 len1)
  have ib2: "inBounds ?b1 ?e"
    using ib l0 by (simp add: inBounds_def le n2 len1)
  have lt: "line vp < line ?e" using rest by simp
  have "deleteText ?b1 \<lparr>start = vp, end' = ?e\<rparr> =
      Inr (join (lineEndings ?b1)
            ([drop ?c (lines ?b1 ! ?l)]
             @ take (nat (line ?e) - ?l - 1) (drop (?l + 1) (lines ?b1))
             @ [take (nat (column ?e)) (lines ?b1 ! nat (line ?e))]),
           ?b1\<lparr>lines := take ?l (lines ?b1)
                   @ [take ?c (lines ?b1 ! ?l) @ drop (nat (column ?e)) (lines ?b1 ! nat (line ?e))]
                   @ drop (Suc (nat (line ?e))) (lines ?b1),
                version := version ?b1 + 1\<rparr>)"
    by (rule deleteText_multi [OF ib1 ib2 lt])
  moreover have "take ?l (lines ?b1)
      @ [take ?c (lines ?b1 ! ?l) @ drop (nat (column ?e)) (lines ?b1 ! nat (line ?e))]
      @ drop (Suc (nat (line ?e))) (lines ?b1) = ?L"
  proof -
    have "take ?c (L1 ! ?l) @ drop (length (last rest)) (L1 ! (?l + length rest)) = ?ln"
      unfolding n1 n2 using c by simp
    then have "take ?l L1 @ [take ?c (L1 ! ?l) @ drop (length (last rest)) (L1 ! (?l + length rest))]
        @ drop (Suc (?l + length rest)) L1 = pre @ [?ln] @ post"
      unfolding tk1 dr by simp
    also have "\<dots> = ?L"
      unfolding pre_def post_def using l by (simp add: id_take_nth_drop [symmetric])
    finally show ?thesis
      by (simp add: le)
  qed
  ultimately have "\<exists>d. deleteText ?b1 \<lparr>start = vp, end' = ?e\<rparr> =
      Inr (d, b\<lparr>version := version b + 2\<rparr>)"
    by simp
  with ins show ?thesis by metis
qed


lemma noBreak_append [simp]: "noBreak (a @ b) = (noBreak a \<and> noBreak b)"
  by (auto simp: noBreak_def)

lemma noBreak_take: "noBreak s \<Longrightarrow> noBreak (take n s)"
  by (auto simp: noBreak_def dest: in_set_takeD)

lemma noBreak_drop: "noBreak s \<Longrightarrow> noBreak (drop n s)"
  by (auto simp: noBreak_def dest: in_set_dropD)

lemma list_all_update:
  "list_all P xs \<Longrightarrow> P x \<Longrightarrow> list_all P (xs[i := x])"
  using set_update_subset_insert [of xs i x] by (auto simp: list_all_iff)

lemma list_all_take: "list_all P xs \<Longrightarrow> list_all P (take n xs)"
  by (auto simp: list_all_iff dest: in_set_takeD)

lemma list_all_drop: "list_all P xs \<Longrightarrow> list_all P (drop n xs)"
  by (auto simp: list_all_iff dest: in_set_dropD)

lemma list_all_butlast: "list_all P xs \<Longrightarrow> list_all P (butlast xs)"
  by (auto simp: list_all_iff dest: in_set_butlastD)

lemma list_all_nth: "list_all P xs \<Longrightarrow> i < length xs \<Longrightarrow> P (xs ! i)"
  by (simp add: list_all_length)

lemma buffer_inv_setText: "buffer_inv (setText b content)"
  by (simp add: buffer_inv_def setText_def Let_def splitLines_noBreak)

lemma buffer_inv_new: "buffer_inv (new_LineBuffer content lineEnding)"
  by (simp add: new_LineBuffer_def buffer_inv_setText)

lemma insertText_total:
  assumes "buffer_inv b"
  shows "\<exists>r b'. insertText b p t = Inr (r, b') \<and> buffer_inv b' \<and> lineEndings b' = lineEndings b
           \<and> version b' = version b + 1"
proof -
  from assms have ne: "lines b \<noteq> []" and nb: "list_all noBreak (lines b)"
    by (auto simp: buffer_inv_def)
  from validatePosition_inBounds [OF ne] obtain vp
    where vp: "validatePosition b p = Inr vp" and ib: "inBounds b vp" by blast
  let ?l = "nat (line vp)" and ?c = "nat (column vp)"
  from ib have l: "?l < length (lines b)" by (auto simp: inBounds_def)
  have ln: "noBreak (lines b ! ?l)" by (rule list_all_nth [OF nb l])
  show ?thesis
  proof (cases "length (splitLines t) = 1")
    case True
    then have t: "noBreak t" by (rule splitLines_length1)
    show ?thesis
      unfolding insertText_single [OF vp ib t]
      using assms ln t
      by (simp add: buffer_inv_def list_all_update noBreak_take noBreak_drop)
  next
    case False
    then obtain s0 rest where sp: "splitLines t = s0 # rest" and rest: "rest \<noteq> []"
      by (cases "splitLines t") auto
    have "list_all noBreak (s0 # rest)"
      using splitLines_noBreak [of t] by (simp add: sp)
    then have s0: "noBreak s0" and rs: "list_all noBreak rest" by simp_all
    from rs rest have "noBreak (last rest)" by (simp add: list_all_iff)
    then show ?thesis
      unfolding insertText_multi [OF vp ib sp rest]
      using assms ln s0 rs
      by (simp add: buffer_inv_def list_all_take list_all_drop list_all_butlast
          noBreak_take noBreak_drop)
  qed
qed

lemma validateRange_total:
  assumes "lines b \<noteq> []"
  shows "\<exists>s e. validateRange b rng = Inr \<lparr>start = s, end' = e\<rparr> \<and> inBounds b s \<and> inBounds b e
           \<and> (line s < line e \<or> (line s = line e \<and> column s \<le> column e))"
proof -
  from validatePosition_inBounds [OF assms] obtain s e
    where "validatePosition b (start rng) = Inr s" "inBounds b s"
      and "validatePosition b (end' rng) = Inr e" "inBounds b e"
    by blast
  then show ?thesis
    by (auto simp: validateRange_def)
qed

lemma deleteText_validated:
  assumes "validateRange b rng = Inr vr" "validateRange b vr = Inr vr"
  shows "deleteText b rng = deleteText b vr"
  using assms by (simp add: deleteText_def)

lemma deleteText_total:
  assumes "buffer_inv b"
  shows "\<exists>d b'. deleteText b rng = Inr (d, b') \<and> buffer_inv b' \<and> lineEndings b' = lineEndings b
           \<and> version b' = version b + 1"
proof -
  from assms have ne: "lines b \<noteq> []" and nb: "list_all noBreak (lines b)"
    by (auto simp: buffer_inv_def)
  from validateRange_total [OF ne] obtain s e
    where vr: "validateRange b rng = Inr \<lparr>start = s, end' = e\<rparr>"
      and ibs: "inBounds b s" and ibe: "inBounds b e"
      and ord: "line s < line e \<or> (line s = line e \<and> column s \<le> column e)"
    by blast
  have del: "deleteText b rng = deleteText b \<lparr>start = s, end' = e\<rparr>"
    by (rule deleteText_validated [OF vr validateRange_ordered [OF ibs ibe ord]])
  from ibs ibe have ls: "nat (line s) < length (lines b)" and le: "nat (line e) < length (lines b)"
    by (auto simp: inBounds_def)
  have ns: "noBreak (lines b ! nat (line s))" by (rule list_all_nth [OF nb ls])
  have ne': "noBreak (lines b ! nat (line e))" by (rule list_all_nth [OF nb le])
  show ?thesis
  proof (cases "line s = line e")
    case True
    with ord have c: "column s \<le> column e" by simp
    show ?thesis
      unfolding del deleteText_single [OF ibs ibe True c]
      using assms ns
      by (simp add: buffer_inv_def list_all_update noBreak_take noBreak_drop)
  next
    case False
    with ord have lt: "line s < line e" by simp
    show ?thesis
      unfolding del deleteText_multi [OF ibs ibe lt]
      using assms ns ne'
      by (simp add: buffer_inv_def list_all_take list_all_drop noBreak_take noBreak_drop)
  qed
qed

lemma replaceText_total:
  assumes "buffer_inv b"
  shows "\<exists>r b'. replaceText b rng t = Inr (r, b') \<and> buffer_inv b' \<and> lineEndings b' = lineEndings b
           \<and> version b' = version b + 2"
proof -
  from deleteText_total [OF assms] obtain d b1
    where d: "deleteText b rng = Inr (d, b1)" and i1: "buffer_inv b1"
      and le1: "lineEndings b1 = lineEndings b" and v1: "version b1 = version b + 1"
    by blast
  from insertText_total [OF i1] obtain r b2
    where "insertText b1 (start rng) t = Inr (r, b2)" "buffer_inv b2"
      "lineEndings b2 = lineEndings b1" "version b2 = version b1 + 1"
    by blast
  with d le1 v1 show ?thesis
    by (simp add: replaceText_def)
qed

lemma buffer_state_inv: "buffer_state b \<Longrightarrow> buffer_inv b"
proof (induction rule: buffer_state.induct)
  case (constructed content lineEnding)
  show ?case by (rule buffer_inv_new)
next
  case (after_setText b content)
  show ?case by (rule buffer_inv_setText)
next
  case (after_insertText b pos tx r b2)
  from insertText_total [OF after_insertText.IH, of pos tx] after_insertText.hyps(2)
  show ?case by auto
next
  case (after_deleteText b rng deleted b2)
  from deleteText_total [OF after_deleteText.IH, of rng] after_deleteText.hyps(2)
  show ?case by auto
next
  case (after_replaceText b rng tx r b2)
  from replaceText_total [OF after_replaceText.IH, of rng tx] after_replaceText.hyps(2)
  show ?case by auto
qed

section \<open>Position clamping\<close>

text \<open>
  Claim C7. In every buffer state \<open>validatePosition\<close> returns normally, for every position
  (negative or oversized coordinates included): the line is the requested line clamped into
  \<open>[0, lineCount - 1]\<close> and the column is the requested column clamped into
  \<open>[0, length of the clamped line]\<close>. On a buffer of three lines the position
  \<open>{line: -5, column: 9999}\<close> is sent to line 0 and the length of line 0 (the example takes
  a first line of at most 9999 characters, as the clamp of 9999 is that length only then).
\<close>

theorem validatePosition_clamps:
  assumes "buffer_state b"
  shows "(\<exists>q. validatePosition b p = Inr q
           \<and> line q = max 0 (min (line p) (lineCount b - 1))
           \<and> 0 \<le> line q \<and> line q \<le> lineCount b - 1
           \<and> column q = max 0 (min (column p) (int (length (lines b ! nat (line q)))))
           \<and> 0 \<le> column q \<and> column q \<le> int (length (lines b ! nat (line q))))
       \<and> (lineCount b = 3 \<and> length (lines b ! 0) \<le> 9999 \<longrightarrow>
            validatePosition b \<lparr>line = - 5, column = 9999\<rparr>
              = Inr \<lparr>line = 0, column = int (length (lines b ! 0))\<rparr>)"
proof -
  from assms have "lines b \<noteq> []"
    by (auto dest: buffer_state_inv simp: buffer_inv_def)
  then have "nat (int (length (lines b)) - 1) < length (lines b)"
    by (cases "lines b") auto
  then show ?thesis
    by (auto simp: validatePosition_def lineCount_def Let_def min_def max_def)
qed

theorem validatePosition_clamps_witness:
  "buffer_state (new_LineBuffer [CHR ''h'', CHR ''i'', LF, CHR ''a'', LF, CHR ''b''] [LF])
   \<and> lineCount (new_LineBuffer [CHR ''h'', CHR ''i'', LF, CHR ''a'', LF, CHR ''b''] [LF]) = 3
   \<and> validatePosition (new_LineBuffer [CHR ''h'', CHR ''i'', LF, CHR ''a'', LF, CHR ''b''] [LF])
        \<lparr>line = - 5, column = 9999\<rparr> = Inr \<lparr>line = 0, column = 2\<rparr>"
  using validatePosition_clamps [OF constructed,
      of "[CHR ''h'', CHR ''i'', LF, CHR ''a'', LF, CHR ''b'']" "[LF]" "\<lparr>line = - 5, column = 9999\<rparr>"]
    constructed [of "[CHR ''h'', CHR ''i'', LF, CHR ''a'', LF, CHR ''b'']" "[LF]"]
  by (simp add: new_LineBuffer_def setText_def lineCount_def)

section \<open>Insertion followed by deletion\<close>

text \<open>
  Claim C3. In every buffer state, for every position and every text, \<open>insertText\<close>
  returns a range, and \<open>deleteText\<close> on that range in the buffer after the insertion
  succeeds and leaves the very lines and the very full text the buffer had before the
  insertion; the version is the original version plus 2.
\<close>

theorem insert_delete_roundtrip:
  assumes "buffer_state b"
  shows "\<exists>r b1 d b2. insertText b p t = Inr (r, b1) \<and> deleteText b1 r = Inr (d, b2)
           \<and> getText b2 = getText b \<and> lines b2 = lines b \<and> version b2 = version b + 2"
proof -
  from assms have "lines b \<noteq> []"
    by (auto dest: buffer_state_inv simp: buffer_inv_def)
  from validatePosition_inBounds [OF this] obtain vp
    where vp: "validatePosition b p = Inr vp" and ib: "inBounds b vp" by blast
  have "\<exists>r b1 d b2. insertText b p t = Inr (r, b1) \<and> deleteText b1 r = Inr (d, b2)
           \<and> b2 = b\<lparr>version := version b + 2\<rparr>"
  proof (cases "length (splitLines t) = 1")
    case True
    then have "noBreak t" by (rule splitLines_length1)
    then show ?thesis by (rule roundtrip_single [OF vp ib])
  next
    case False
    then obtain s0 rest where "splitLines t = s0 # rest" "rest \<noteq> []"
      by (cases "splitLines t") auto
    then show ?thesis by (rule roundtrip_multi [OF vp ib])
  qed
  then obtain r b1 d b2 where "insertText b p t = Inr (r, b1)" "deleteText b1 r = Inr (d, b2)"
    "b2 = b\<lparr>version := version b + 2\<rparr>" by blast
  then show ?thesis
    by (auto simp: getText_def)
qed

theorem insert_delete_roundtrip_witness:
  "buffer_state (new_LineBuffer ''ab'' [LF])
   \<and> (\<exists>r b1 d b2.
        insertText (new_LineBuffer ''ab'' [LF]) \<lparr>line = 0, column = 1\<rparr> [CHR ''X'', LF, CHR ''Y'']
          = Inr (r, b1)
        \<and> deleteText b1 r = Inr (d, b2)
        \<and> getText b2 = getText (new_LineBuffer ''ab'' [LF])
        \<and> lines b2 = lines (new_LineBuffer ''ab'' [LF])
        \<and> version b2 = version (new_LineBuffer ''ab'' [LF]) + 2)"
  using insert_delete_roundtrip [OF constructed, of "''ab''" "[LF]" "\<lparr>line = 0, column = 1\<rparr>"
      "[CHR ''X'', LF, CHR ''Y'']"]
    constructed [of "''ab''" "[LF]"]
  by blast

section \<open>The constructor\<close>

lemma startsWith_iff: "startsWith s sub \<longleftrightarrow> (\<exists>post. s = sub @ post)"
  by (induction s sub rule: startsWith.induct) auto

lemma includesStr_iff: "includesStr s sub \<longleftrightarrow> (\<exists>pre post. s = pre @ sub @ post)"
proof (induction s)
  case Nil
  show ?case by (cases sub) auto
next
  case (Cons c cs)
  show ?case
  proof
    assume "includesStr (c # cs) sub"
    then consider "startsWith (c # cs) sub" | "includesStr cs sub" by auto
    then show "\<exists>pre post. c # cs = pre @ sub @ post"
    proof cases
      case 1
      then obtain post where "c # cs = [] @ sub @ post" by (auto simp: startsWith_iff)
      then show ?thesis by blast
    next
      case 2
      with Cons.IH obtain pre post where "cs = pre @ sub @ post" by blast
      then have "c # cs = (c # pre) @ sub @ post" by simp
      then show ?thesis by blast
    qed
  next
    assume "\<exists>pre post. c # cs = pre @ sub @ post"
    then obtain pre post where eq: "c # cs = pre @ sub @ post" by blast
    show "includesStr (c # cs) sub"
    proof (cases pre)
      case Nil
      with eq have "startsWith (c # cs) sub" by (auto simp: startsWith_iff)
      then show ?thesis by simp
    next
      case (Cons x pre')
      with eq have "cs = pre' @ sub @ post" by simp
      with Cons.IH have "includesStr cs sub" by blast
      then show ?thesis by simp
    qed
  qed
qed

text \<open>
  Claim C10. The \<open>lineEnding\<close> argument of the constructor has no effect: two buffers
  constructed from the same content are equal whatever that argument was, and the
  line-ending style of the constructed buffer is \<open>\r\n\<close> when the content contains
  \<open>\r\n\<close>, else \<open>\r\<close> when it contains \<open>\r\<close>, else \<open>\n\<close>.
\<close>

theorem constructor_lineEnding_inert:
  "new_LineBuffer c e = new_LineBuffer c e'
   \<and> lineEndings (new_LineBuffer c e)
       = (if includesStr c [CR, LF] then [CR, LF] else if includesStr c [CR] then [CR] else [LF])
   \<and> lines (new_LineBuffer c e) = splitLines c
   \<and> version (new_LineBuffer c e) = 1"
  by (simp add: new_LineBuffer_def setText_def Let_def)

section \<open>Offsets and positions\<close>

declare positionToOffset_loop.simps [simp del]
declare offsetToPosition_loop.simps [simp del]

lemma getLineLength_inner:
  "0 \<le> l \<Longrightarrow> l < int (length (lines b)) - 1 \<Longrightarrow>
   getLineLength b l = Inr (int (length (lines b ! nat l)) + int (length (lineEndings b)))"
  by (simp add: getLineLength_def getLineContent_def)

lemma getLineLength_last:
  "lines b \<noteq> [] \<Longrightarrow> l = int (length (lines b)) - 1 \<Longrightarrow>
   getLineLength b l = Inr (int (length (lines b ! nat l)))"
  by (simp add: getLineLength_def getLineContent_def)

lemma lineStart_Suc:
  "lineStart b (Suc k) = lineStart b k + int (length (lines b ! k)) + int (length (lineEndings b))"
  by (simp add: lineStart_def)

lemma lineStart_mono: "k \<le> k' \<Longrightarrow> lineStart b k \<le> lineStart b k'"
  unfolding lineStart_def by (rule sum_mono2) auto

lemma positionToOffset_loop_lineStart:
  "0 \<le> l \<Longrightarrow> l \<le> n \<Longrightarrow> n < int (length (lines b)) \<Longrightarrow>
   positionToOffset_loop b n l (lineStart b (nat l)) = Inr (lineStart b (nat n))"
proof (induction "nat (n - l)" arbitrary: l)
  case 0
  then have "l = n" by simp
  then show ?case by (simp add: positionToOffset_loop.simps)
next
  case (Suc k)
  then have lt: "l < n" and k: "k = nat (n - (l + 1))" by auto
  have len: "getLineLength b l = Inr (int (length (lines b ! nat l)) + int (length (lineEndings b)))"
    using Suc.prems lt by (intro getLineLength_inner) auto
  have st: "lineStart b (nat l) + (int (length (lines b ! nat l)) + int (length (lineEndings b)))
      = lineStart b (nat (l + 1))"
    using Suc.prems(1) by (simp add: nat_add_distrib lineStart_Suc)
  have "positionToOffset_loop b n (l + 1) (lineStart b (nat (l + 1))) = Inr (lineStart b (nat n))"
    using Suc.prems lt by (intro Suc.hyps(1) [OF k]) auto
  then show ?case
    using lt by (subst positionToOffset_loop.simps) (simp add: len st)
qed

lemma positionToOffset_inBounds:
  assumes "inBounds b p"
  shows "positionToOffset b p = Inr (lineStart b (nat (line p)) + column p)"
proof -
  have "lineStart b (nat 0) = 0" by (simp add: lineStart_def)
  with positionToOffset_loop_lineStart [of 0 "line p" b] assms
  have "positionToOffset_loop b (line p) 0 0 = Inr (lineStart b (nat (line p)))"
    by (simp add: inBounds_def)
  then show ?thesis
    using assms by (simp add: positionToOffset_def validatePosition_id)
qed


lemma offsetToPosition_loop_target:
  assumes ib: "inBounds b p" and le: "lineEndings b \<noteq> []"
  shows "0 \<le> l \<Longrightarrow> l \<le> line p \<Longrightarrow>
    offsetToPosition_loop b (lineStart b (nat (line p)) + column p) l (lineStart b (nat l)) = Inr p"
proof (induction "nat (line p - l)" arbitrary: l)
  case 0
  then have l: "l = line p" by simp
  from ib have bounds: "0 \<le> line p" "line p < int (length (lines b))"
    "0 \<le> column p" "column p \<le> int (length (lines b ! nat (line p)))"
    by (auto simp: inBounds_def)
  have p: "\<lparr>line = line p, column = column p\<rparr> = p" by simp
  show ?case
  proof (cases "line p = int (length (lines b)) - 1")
    case True
    have ne: "lines b \<noteq> []" using bounds by auto
    have len: "getLineLength b (line p) = Inr (int (length (lines b ! nat (line p))))"
      by (rule getLineLength_last [OF ne True])
    show ?thesis
    proof (cases "column p < int (length (lines b ! nat (line p)))")
      case True
      then show ?thesis
        unfolding l using bounds
        by (subst offsetToPosition_loop.simps) (simp add: len p)
    next
      case False
      with bounds have c: "column p = int (length (lines b ! nat (line p)))" by simp
      have "offsetToPosition_loop b (lineStart b (nat (line p)) + column p) (line p + 1)
              (lineStart b (nat (line p)) + int (length (lines b ! nat (line p)))) = Inr p"
        using True bounds c
        by (subst offsetToPosition_loop.simps) (simp add: Let_def p [unfolded c])
      then show ?thesis
        unfolding l using bounds c
        by (subst offsetToPosition_loop.simps) (simp add: len)
    qed
  next
    case False
    with bounds have "line p < int (length (lines b)) - 1" by simp
    with bounds have len: "getLineLength b (line p)
        = Inr (int (length (lines b ! nat (line p))) + int (length (lineEndings b)))"
      by (intro getLineLength_inner) auto
    have gt: "column p < int (length (lines b ! nat (line p))) + int (length (lineEndings b))"
      using bounds le by (cases "lineEndings b") auto
    from bounds show ?thesis
      unfolding l by (subst offsetToPosition_loop.simps) (simp add: len p gt)
  qed
next
  case (Suc k)
  then have lt: "l < line p" and k: "k = nat (line p - (l + 1))" by auto
  from ib have bounds: "line p < int (length (lines b))" "0 \<le> column p"
    by (auto simp: inBounds_def)
  have len: "getLineLength b l = Inr (int (length (lines b ! nat l)) + int (length (lineEndings b)))"
    using Suc.prems lt bounds by (intro getLineLength_inner) auto
  have st: "lineStart b (nat l) + (int (length (lines b ! nat l)) + int (length (lineEndings b)))
      = lineStart b (nat (l + 1))"
    using Suc.prems(1) by (simp add: nat_add_distrib lineStart_Suc)
  have "lineStart b (nat (l + 1)) \<le> lineStart b (nat (line p))"
    using lt by (intro lineStart_mono) simp
  with bounds have notgt: "\<not> lineStart b (nat (l + 1)) > lineStart b (nat (line p)) + column p"
    by simp
  have "offsetToPosition_loop b (lineStart b (nat (line p)) + column p) (l + 1)
          (lineStart b (nat (l + 1))) = Inr p"
    using Suc.prems lt by (intro Suc.hyps(1) [OF k]) auto
  then show ?case
    using lt bounds notgt
    by (subst offsetToPosition_loop.simps) (simp add: len st)
qed

lemma offsetToPosition_inBounds:
  assumes "inBounds b p" "lineEndings b \<noteq> []"
  shows "offsetToPosition b (lineStart b (nat (line p)) + column p) = Inr p"
proof -
  have "lineStart b (nat 0) = 0" by (simp add: lineStart_def)
  with offsetToPosition_loop_target [OF assms, of 0] assms(1) show ?thesis
    by (simp add: offsetToPosition_def inBounds_def)
qed


lemma join_Cons: "ys \<noteq> [] \<Longrightarrow> join sep (y # ys) = y @ sep @ join sep ys"
  by (cases ys) simp_all

lemma length_join_snoc:
  "int (length (join sep (xs @ [x])))
     = (\<Sum>y\<leftarrow>xs. int (length y) + int (length sep)) + int (length x)"
  by (induction xs) (simp_all add: join_Cons)

lemma lineStart_take:
  "n \<le> length (lines b) \<Longrightarrow>
   lineStart b n = (\<Sum>y\<leftarrow>take n (lines b). int (length y) + int (length (lineEndings b)))"
proof (induction n)
  case 0
  show ?case by (simp add: lineStart_def)
next
  case (Suc n)
  then have "take (Suc n) (lines b) = take n (lines b) @ [lines b ! n]"
    by (simp add: take_Suc_conv_app_nth)
  with Suc show ?case
    by (simp add: lineStart_Suc)
qed

lemma textBefore_length:
  assumes ib: "inBounds b p"
  shows "\<exists>t. getTextRange b \<lparr>start = \<lparr>line = 0, column = 0\<rparr>, end' = p\<rparr> = Inr t
           \<and> int (length t) = lineStart b (nat (line p)) + column p"
proof -
  let ?o = "\<lparr>line = 0, column = 0\<rparr>"
  from ib have bounds: "0 \<le> line p" "line p < int (length (lines b))"
    "0 \<le> column p" "column p \<le> int (length (lines b ! nat (line p)))"
    by (auto simp: inBounds_def)
  then have ibo: "inBounds b ?o" by (cases "lines b") (auto simp: inBounds_def)
  show ?thesis
  proof (cases "line p = 0")
    case True
    have "getTextRange b \<lparr>start = ?o, end' = p\<rparr>
        = Inr (take (nat (column p) - nat (column ?o)) (drop (nat (column ?o)) (lines b ! nat (line ?o))))"
      using True bounds by (intro getTextRange_single [OF ibo ib]) simp_all
    with True bounds show ?thesis
      by (simp add: lineStart_def)
  next
    case False
    with bounds have pos: "line ?o < line p" by simp
    let ?n = "nat (line p)"
    from False bounds have n: "0 < ?n" "?n < length (lines b)" by simp_all
    have "lines b ! 0 # take (?n - 1) (drop 1 (lines b)) = take ?n (lines b)"
      using n by (cases "lines b"; cases ?n) simp_all
    then have parts: "[drop (nat (column ?o)) (lines b ! nat (line ?o))]
        @ take (nat (line p) - nat (line ?o) - 1) (drop (nat (line ?o) + 1) (lines b))
        @ [take (nat (column p)) (lines b ! nat (line p))]
        = take ?n (lines b) @ [take (nat (column p)) (lines b ! ?n)]"
      by simp
    have "getTextRange b \<lparr>start = ?o, end' = p\<rparr>
        = Inr (join (lineEndings b) (take ?n (lines b) @ [take (nat (column p)) (lines b ! ?n)]))"
      unfolding getTextRange_multi [OF ibo ib pos] parts ..
    moreover have "int (length (join (lineEndings b)
          (take ?n (lines b) @ [take (nat (column p)) (lines b ! ?n)])))
        = lineStart b ?n + column p"
      using n bounds by (simp add: length_join_snoc lineStart_take)
    ultimately show ?thesis by blast
  qed
qed

text \<open>
  Claim C4. In every buffer state and for every position \<open>p\<close>, \<open>positionToOffset\<close>
  returns an offset, and \<open>offsetToPosition\<close> of that offset is \<open>validatePosition(p)\<close>; so
  an in-bounds position is returned unchanged. The offset is the length of the text from
  the start of the document to the validated position, as \<open>getTextRange\<close> returns it:
  the characters of the lines before it, one line-ending separator after each of those
  lines, and the characters before the column (no separator follows the final line).
\<close>

theorem offset_roundtrip:
  assumes "buffer_state b"
  shows "\<exists>off. positionToOffset b p = Inr off
           \<and> offsetToPosition b off = validatePosition b p
           \<and> (inBounds b p \<longrightarrow> offsetToPosition b off = Inr p)
           \<and> (\<exists>vp t. validatePosition b p = Inr vp
                 \<and> getTextRange b \<lparr>start = \<lparr>line = 0, column = 0\<rparr>, end' = vp\<rparr> = Inr t
                 \<and> off = int (length t))"
proof -
  from assms have inv: "buffer_inv b" by (rule buffer_state_inv)
  then have ne: "lines b \<noteq> []" and le: "lineEndings b \<noteq> []"
    by (auto simp: buffer_inv_def)
  from validatePosition_inBounds [OF ne] obtain vp
    where vp: "validatePosition b p = Inr vp" and ib: "inBounds b vp" by blast
  let ?off = "lineStart b (nat (line vp)) + column vp"
  have "positionToOffset b vp = Inr ?off"
    by (rule positionToOffset_inBounds [OF ib])
  then have 1: "positionToOffset b p = Inr ?off"
    using vp by (simp add: positionToOffset_def validatePosition_id [OF ib])
  have 2: "offsetToPosition b ?off = Inr vp"
    by (rule offsetToPosition_inBounds [OF ib le])
  have 3: "inBounds b p \<longrightarrow> vp = p"
    using vp by (auto simp: validatePosition_id)
  from textBefore_length [OF ib] obtain t
    where "getTextRange b \<lparr>start = \<lparr>line = 0, column = 0\<rparr>, end' = vp\<rparr> = Inr t"
      and "int (length t) = ?off" by blast
  with 1 2 3 vp show ?thesis by auto
qed

theorem offset_roundtrip_witness:
  "buffer_state (new_LineBuffer [CHR ''a'', CHR ''b'', CR, LF, CHR ''c''] [LF])
   \<and> inBounds (new_LineBuffer [CHR ''a'', CHR ''b'', CR, LF, CHR ''c''] [LF]) \<lparr>line = 1, column = 1\<rparr>
   \<and> positionToOffset (new_LineBuffer [CHR ''a'', CHR ''b'', CR, LF, CHR ''c''] [LF])
        \<lparr>line = 1, column = 1\<rparr> = Inr 5
   \<and> offsetToPosition (new_LineBuffer [CHR ''a'', CHR ''b'', CR, LF, CHR ''c''] [LF]) 5
        = Inr \<lparr>line = 1, column = 1\<rparr>"
proof -
  let ?b = "new_LineBuffer [CHR ''a'', CHR ''b'', CR, LF, CHR ''c''] [LF]"
  let ?p = "\<lparr>line = 1, column = 1\<rparr>"
  have st: "buffer_state ?b" by (rule constructed)
  have ib: "inBounds ?b ?p"
    by (simp add: inBounds_def new_LineBuffer_def setText_def)
  have "lineStart ?b (nat (line ?p)) + column ?p = 5"
    by (simp add: lineStart_def new_LineBuffer_def setText_def)
  with positionToOffset_inBounds [OF ib] have off: "positionToOffset ?b ?p = Inr 5"
    by simp
  from offset_roundtrip [OF st, of ?p] ib off st show ?thesis
    by auto
qed

section \<open>The word range contains the column\<close>

declare wordLoop.simps [simp del]
declare wordMatches.simps [simp del]

lemma wordLoop_find:
  "wordLoop ln col li = find (containsColumn col) (wordMatches ln li)"
proof (induction ln col li rule: wordLoop.induct)
  case (1 ln col li)
  show ?case
  proof (cases "wordExec ln li")
    case None
    then show ?thesis
      by (subst wordLoop.simps, subst wordMatches.simps) simp
  next
    case (Some m)
    obtain s e where m: "m = (s, e)" by (cases m)
    show ?thesis
    proof (cases "int s \<le> col \<and> col \<le> int e")
      case True
      with Some m show ?thesis
        by (subst wordLoop.simps, subst wordMatches.simps) (simp add: containsColumn_def)
    next
      case False
      then have nc: "\<not> containsColumn col (s, e)" by (simp add: containsColumn_def)
      from False "1.IH" [OF Some m [symmetric]]
      have "wordLoop ln col e = find (containsColumn col) (wordMatches ln e)" by blast
      with False nc Some m show ?thesis
        by (subst wordLoop.simps, subst wordMatches.simps) auto
    qed
  qed
qed


lemma wordExec_run:
  assumes "wordExec ln li = Some (s, e)"
  shows "(\<forall>i. li \<le> i \<and> i < s \<longrightarrow> \<not> isWordChar (ln ! i))
       \<and> (\<forall>i. s \<le> i \<and> i < e \<longrightarrow> isWordChar (ln ! i))
       \<and> (e < length ln \<longrightarrow> \<not> isWordChar (ln ! e))"
proof -
  define pre where "pre = takeWhile (\<lambda>c. \<not> isWordChar c) (drop li ln)"
  from assms obtain c cs where li: "li \<le> length ln"
    and dw: "dropWhile (\<lambda>c. \<not> isWordChar c) (drop li ln) = c # cs"
    and s: "s = length ln - length (c # cs)"
    and e: "e = s + length (takeWhile isWordChar (c # cs))"
    by (auto simp: wordExec_def Let_def split: if_splits list.splits)
  define run where "run = takeWhile isWordChar (c # cs)"
  have parts: "drop li ln = pre @ c # cs"
    using takeWhile_dropWhile_id [of "\<lambda>c. \<not> isWordChar c" "drop li ln"] dw
    by (simp add: pre_def)
  have whole: "ln = take li ln @ pre @ c # cs"
    using parts by (metis append_take_drop_id)
  have lt: "length (take li ln) = li" using li by simp
  have s': "s = li + length pre"
  proof -
    have "length ln = li + length pre + length (c # cs)"
      using arg_cong [OF whole, of length] lt by simp
    with s show ?thesis by simp
  qed
  have e': "e = s + length run" using e by (simp add: run_def)
  have run_le: "length run \<le> length (c # cs)"
    unfolding run_def by (rule length_takeWhile_le)
  have nth_pre: "ln ! (li + j) = pre ! j" if "j < length pre" for j
  proof -
    have "ln ! (li + j) = (take li ln @ pre @ c # cs) ! (length (take li ln) + j)"
      using whole lt by simp
    also have "\<dots> = (pre @ c # cs) ! j" by (rule nth_append_length_plus)
    also have "\<dots> = pre ! j" using that by (simp add: nth_append)
    finally show ?thesis .
  qed
  have nth_rest: "ln ! (s + j) = (c # cs) ! j" for j
  proof -
    have "ln ! (s + j) = ((take li ln @ pre) @ c # cs) ! (length (take li ln @ pre) + j)"
      using whole lt s' by simp
    also have "\<dots> = (c # cs) ! j" by (rule nth_append_length_plus)
    finally show ?thesis .
  qed
  have 1: "\<not> isWordChar (ln ! i)" if "li \<le> i" "i < s" for i
  proof -
    from that s' have j: "i - li < length pre" by simp
    from nth_pre [OF j] that have "ln ! i = pre ! (i - li)" by simp
    moreover have "pre ! (i - li) \<in> set pre" using j by simp
    ultimately show ?thesis unfolding pre_def by (auto dest: set_takeWhileD)
  qed
  have 2: "isWordChar (ln ! i)" if "s \<le> i" "i < e" for i
  proof -
    from that e' have j: "i - s < length run" by simp
    from nth_rest [of "i - s"] that have "ln ! i = (c # cs) ! (i - s)" by simp
    also have "\<dots> = run ! (i - s)"
      using takeWhile_nth [of "i - s" isWordChar "c # cs"] j by (simp add: run_def)
    finally have "ln ! i \<in> set run"
      using j by (metis nth_mem)
    then show ?thesis unfolding run_def by (auto dest: set_takeWhileD)
  qed
  have 3: "\<not> isWordChar (ln ! e)" if "e < length ln"
  proof -
    have "length ln = s + length (c # cs)"
      using arg_cong [OF whole, of length] lt s' by simp
    with that e' have j: "length (takeWhile isWordChar (c # cs)) < length (c # cs)"
      by (simp add: run_def)
    from nth_rest [of "length run"] e' have "ln ! e = (c # cs) ! length (takeWhile isWordChar (c # cs))"
      by (simp add: run_def)
    with nth_length_takeWhile [OF j] show ?thesis by simp
  qed
  from 1 2 3 show ?thesis by blast
qed

lemma wordExec_None:
  assumes "wordExec ln li = None" "li \<le> i" "i < length ln"
  shows "\<not> isWordChar (ln ! i)"
proof -
  from assms have "dropWhile (\<lambda>c. \<not> isWordChar c) (drop li ln) = []"
    by (auto simp: wordExec_def Let_def split: if_splits list.splits)
  then have all: "\<forall>c \<in> set (drop li ln). \<not> isWordChar c"
    by (simp add: dropWhile_eq_Nil_conv)
  have "drop li ln ! (i - li) = ln ! i" using assms(2,3) by simp
  moreover have "i - li < length (drop li ln)" using assms(2,3) by simp
  ultimately have "ln ! i \<in> set (drop li ln)" by (metis nth_mem)
  with all show ?thesis by blast
qed

lemma wordMatches_example: "wordMatches ''ab cd'' 0 = [(0, 2), (3, 5)]"
  by code_simp

text \<open>
  Claim C8 as worded does not hold at the end of a line. On the buffer \<open>ab cd\<close> the
  position \<open>(0, 5)\<close> is in bounds, and the match \<open>cd\<close> of the word pattern, from column 3 to
  column 5, is the first match whose span contains column 5 with both ends included; yet
  \<open>getWordRangeAtPosition\<close> returns \<open>null\<close>: the guard \<open>validPosition.column >= line.length\<close>
  returns before any match is looked at.
\<close>

theorem wordRange_end_of_line_counterexample:
  "inBounds (new_LineBuffer ''ab cd'' [LF]) \<lparr>line = 0, column = 5\<rparr>
   \<and> lines (new_LineBuffer ''ab cd'' [LF]) ! 0 = ''ab cd''
   \<and> find (containsColumn 5) (wordMatches ''ab cd'' 0) = Some (3, 5)
   \<and> getWordRangeAtPosition (new_LineBuffer ''ab cd'' [LF]) \<lparr>line = 0, column = 5\<rparr> = Inr None"
proof -
  let ?b = "new_LineBuffer ''ab cd'' [LF]"
  have ln: "lines ?b = [''ab cd'']"
    by (simp add: new_LineBuffer_def setText_def)
  have ib: "inBounds ?b \<lparr>line = 0, column = 5\<rparr>"
    by (simp add: inBounds_def ln)
  have m: "find (containsColumn 5) (wordMatches ''ab cd'' 0) = Some (3, 5)"
    by (simp add: wordMatches_example containsColumn_def)
  have r: "getWordRangeAtPosition ?b \<lparr>line = 0, column = 5\<rparr> = Inr None"
    by (simp add: getWordRangeAtPosition_def validatePosition_id [OF ib] ln)
  from ib ln m r show ?thesis by simp
qed

text \<open>
  Claim C8, amended. In every buffer state and for every position \<open>p\<close>,
  \<open>getWordRangeAtPosition\<close> (default word pattern) returns normally. The position is
  validated first (an in-bounds position is unchanged). When the column of \<open>p\<close> is at or
  beyond the length of the line of the validated position, the result is absent, also
  when a match ends there. Otherwise the result is the first match of the word pattern on
  that line, in the order of the matches, whose span contains the validated column with
  both ends included (a match that ends at the column qualifies), as a range on that
  line. So the result is absent exactly when the column of \<open>p\<close> is greater than or equal to
  the length of the line or no match contains the column.
\<close>

theorem wordRange_first_containing:
  assumes "buffer_state b"
  shows "\<exists>vp. validatePosition b p = Inr vp \<and> (inBounds b p \<longrightarrow> vp = p)
    \<and> getWordRangeAtPosition b p =
        Inr (if column p \<ge> int (length (lines b ! nat (line vp))) then None
             else map_option (wordRange (line vp))
                    (find (containsColumn (column vp)) (wordMatches (lines b ! nat (line vp)) 0)))
    \<and> (getWordRangeAtPosition b p = Inr None \<longleftrightarrow>
          column p \<ge> int (length (lines b ! nat (line vp)))
          \<or> \<not> (\<exists>m \<in> set (wordMatches (lines b ! nat (line vp)) 0). containsColumn (column vp) m))"
proof -
  from assms have ne: "lines b \<noteq> []"
    by (auto dest: buffer_state_inv simp: buffer_inv_def)
  from validatePosition_inBounds [OF ne] obtain vp
    where vp: "validatePosition b p = Inr vp" and ib: "inBounds b vp" by blast
  let ?ln = "lines b ! nat (line vp)"
  have same: "inBounds b p \<longrightarrow> vp = p"
    using vp by (auto simp: validatePosition_id)
  have col: "column vp = max 0 (min (column p) (int (length ?ln)))"
    using vp ne by (auto simp: validatePosition_def Let_def split: if_splits)
  have wr: "(\<lambda>(s, e). \<lparr>start = \<lparr>line = line vp, column = int s\<rparr>,
                        end' = \<lparr>line = line vp, column = int e\<rparr>\<rparr>) = wordRange (line vp)"
    by (auto simp: wordRange_def fun_eq_iff)
  have none: "wordMatches [] 0 = []"
    by (subst wordMatches.simps) (simp add: wordExec_def)
  have res: "getWordRangeAtPosition b p =
      Inr (if column p \<ge> int (length ?ln) then None
           else map_option (wordRange (line vp))
                  (find (containsColumn (column vp)) (wordMatches ?ln 0)))"
  proof (cases "?ln = []")
    case True
    then show ?thesis
      by (simp add: getWordRangeAtPosition_def vp Let_def none)
  next
    case False
    with col have "column vp \<ge> int (length ?ln) \<longleftrightarrow> column p \<ge> int (length ?ln)"
      by (auto simp: min_def max_def)
    with False show ?thesis
      by (simp add: getWordRangeAtPosition_def vp Let_def wr wordLoop_find)
  qed
  have "find (containsColumn (column vp)) (wordMatches ?ln 0) = None
      \<longleftrightarrow> \<not> (\<exists>m \<in> set (wordMatches ?ln 0). containsColumn (column vp) m)"
    by (auto simp: find_None_iff)
  with res vp same show ?thesis
    by auto
qed


theorem wordRange_first_containing_witness:
  "buffer_state (new_LineBuffer ''ab cd'' [LF])
   \<and> getWordRangeAtPosition (new_LineBuffer ''ab cd'' [LF]) \<lparr>line = 0, column = 2\<rparr>
       = Inr (Some \<lparr>start = \<lparr>line = 0, column = 0\<rparr>, end' = \<lparr>line = 0, column = 2\<rparr>\<rparr>)"
proof -
  let ?b = "new_LineBuffer ''ab cd'' [LF]"
  let ?p = "\<lparr>line = 0, column = 2\<rparr>"
  have st: "buffer_state ?b" by (rule constructed)
  have vp: "validatePosition ?b ?p = Inr ?p"
    by (simp add: validatePosition_def new_LineBuffer_def setText_def)
  have ln: "lines ?b ! nat 0 = ''ab cd''"
    by (simp add: new_LineBuffer_def setText_def)
  from wordRange_first_containing [OF st, of ?p] vp ln st show ?thesis
    by (simp add: wordMatches_example containsColumn_def wordRange_def)
qed

section \<open>Termination of the search loop\<close>

lemma findAll_loop_stuck:
  assumes nxt: "findNext mk b s q opts = Inr (Some r)" and stuck: "end' r = q"
  shows "findAll_loop mk b s opts q ranges = None"
proof -
  let ?P = "\<lambda>mk' b' s' opts' q' (ranges' :: Range list) (y :: error + Range list).
              \<not> (mk' = mk \<and> b' = b \<and> s' = s \<and> opts' = opts \<and> q' = q)"
  have never: "?P mk' b' s' opts' q' ranges' y"
    if ret: "findAll_loop mk' b' s' opts' q' ranges' = Some y" for mk' b' s' opts' q' ranges' y
  proof (rule findAll_loop.raw_induct [where P = ?P, OF _ ret])
    fix loop mk' b' s' opts' q' ranges' y
    assume IH: "\<And>mk' b' s' opts' q' ranges' y.
        loop mk' b' s' opts' q' ranges' = Some y \<Longrightarrow> ?P mk' b' s' opts' q' ranges' y"
      and step: "(case findNext mk' b' s' q' opts' of
                    Inl err \<Rightarrow> Some (Inl err)
                  | Inr None \<Rightarrow> Some (Inr ranges')
                  | Inr (Some r) \<Rightarrow> loop mk' b' s' opts' (end' r) (ranges' @ [r])) = Some y"
    show "?P mk' b' s' opts' q' ranges' y"
    proof
      assume eq: "mk' = mk \<and> b' = b \<and> s' = s \<and> opts' = opts \<and> q' = q"
      with step nxt have "loop mk b s opts (end' r) (ranges' @ [r]) = Some y"
        by simp
      from IH [OF this] stuck show False by simp
    qed
  qed
  show ?thesis
  proof (cases "findAll_loop mk b s opts q ranges")
    case None
    then show ?thesis .
  next
    case (Some y)
    from never [OF this] show ?thesis by simp
  qed
qed

lemma literalExec_empty:
  "lastIndex \<le> length text \<Longrightarrow> literalExec ic [] text lastIndex = Some (lastIndex, 0)"
  by (simp add: literalExec_def Let_def upt_rec [of lastIndex])

lemma findNext_empty_needle:
  assumes "buffer_inv b" "\<not> regex opts" "\<not> wholeWord opts"
  shows "findNext literalRegExp b [] \<lparr>line = 0, column = 0\<rparr> opts
    = Inr (Some \<lparr>start = \<lparr>line = 0, column = 0\<rparr>, end' = \<lparr>line = 0, column = 0\<rparr>\<rparr>)"
proof -
  let ?o = "\<lparr>line = 0, column = 0\<rparr>"
  from assms(1) have ne: "lines b \<noteq> []" and le: "lineEndings b \<noteq> []"
    by (auto simp: buffer_inv_def)
  from ne have ib: "inBounds b ?o" by (cases "lines b") (auto simp: inBounds_def)
  have z: "lineStart b (nat (line ?o)) + column ?o = 0" by (simp add: lineStart_def)
  have pto: "positionToOffset b ?o = Inr 0"
    using positionToOffset_inBounds [OF ib] z by simp
  have otp: "offsetToPosition b 0 = Inr ?o"
    using offsetToPosition_inBounds [OF ib le] z by simp
  have re: "literalRegExp [] (if caseSensitive opts then ''g'' else ''gi'')
      = Some (literalExec (\<not> caseSensitive opts) [])"
    by (simp add: literalRegExp_def)
  show ?thesis
    using assms(2,3)
    by (simp add: findNext_def Let_def escapeRegExp_def re pto otp literalExec_empty)
qed

text \<open>
  Claim C2 (the code departs from it). \<open>findAll\<close> with the empty search text and default
  options does not return: \<open>findNext\<close> from \<open>(0, 0)\<close> finds the empty match at offset 0 and
  returns the range from \<open>(0, 0)\<close> to \<open>(0, 0)\<close>, so the next search starts at \<open>(0, 0)\<close>
  again; the search position does not advance.
\<close>

theorem findAll_empty_needle_diverges:
  "findNext literalRegExp (new_LineBuffer ''abc'' [LF]) [] \<lparr>line = 0, column = 0\<rparr> defaultOptions
     = Inr (Some \<lparr>start = \<lparr>line = 0, column = 0\<rparr>, end' = \<lparr>line = 0, column = 0\<rparr>\<rparr>)
   \<and> findAll literalRegExp (new_LineBuffer ''abc'' [LF]) [] defaultOptions = None"
proof -
  have "buffer_inv (new_LineBuffer ''abc'' [LF])" by (rule buffer_inv_new)
  then have nxt: "findNext literalRegExp (new_LineBuffer ''abc'' [LF]) [] \<lparr>line = 0, column = 0\<rparr>
      defaultOptions
    = Inr (Some \<lparr>start = \<lparr>line = 0, column = 0\<rparr>, end' = \<lparr>line = 0, column = 0\<rparr>\<rparr>)"
    by (rule findNext_empty_needle) (simp_all add: defaultOptions_def)
  then have "findAll literalRegExp (new_LineBuffer ''abc'' [LF]) [] defaultOptions = None"
    unfolding findAll_def by (rule findAll_loop_stuck) simp
  with nxt show ?thesis by simp
qed

text \<open>The loop returns on the example of the specification: three matches of \<open>hello\<close> in
  \<open>Hello hello HELLO\<close> when case is ignored.\<close>

lemma findAll_hello_ignoreCase:
  "findAll literalRegExp (new_LineBuffer ''Hello hello HELLO'' [LF]) ''hello'' defaultOptions
   = Some (Inr [\<lparr>start = \<lparr>line = 0, column = 0\<rparr>, end' = \<lparr>line = 0, column = 5\<rparr>\<rparr>,
                \<lparr>start = \<lparr>line = 0, column = 6\<rparr>, end' = \<lparr>line = 0, column = 11\<rparr>\<rparr>,
                \<lparr>start = \<lparr>line = 0, column = 12\<rparr>, end' = \<lparr>line = 0, column = 17\<rparr>\<rparr>])"
  by code_simp

section \<open>Invalid patterns\<close>

text \<open>
  Claim C9. With \<open>regex: true\<close> and a search text that the \<open>RegExp\<close> constructor rejects,
  \<open>findNext\<close> returns \<open>null\<close> from every start position and \<open>findAll\<close> returns the empty
  list; neither raises an error. Both are functions of the buffer that return no buffer:
  the methods assign no field, so lines and version are as before the call.
\<close>

theorem invalid_regex_no_match:
  assumes "regex opts"
    and "newRegExp searchText (if caseSensitive opts then ''g'' else ''gi'') = None"
  shows "findNext newRegExp b searchText startPosition opts = Inr None
       \<and> findAll newRegExp b searchText opts = Some (Inr [])"
proof -
  have nxt: "findNext newRegExp b searchText q opts = Inr None" for q
    using assms by (simp add: findNext_def Let_def)
  then show ?thesis
    by (simp add: findAll_def findAll_loop.simps)
qed

theorem invalid_regex_no_match_witness:
  "regex (defaultOptions\<lparr>regex := True\<rparr>)
   \<and> literalRegExp ''('' ''gi'' = None
   \<and> findNext literalRegExp (new_LineBuffer ''f(x)'' [LF]) ''('' \<lparr>line = 0, column = 0\<rparr>
        (defaultOptions\<lparr>regex := True\<rparr>) = Inr None
   \<and> findAll literalRegExp (new_LineBuffer ''f(x)'' [LF]) ''('' (defaultOptions\<lparr>regex := True\<rparr>)
        = Some (Inr [])"
proof -
  have r: "regex (defaultOptions\<lparr>regex := True\<rparr>)" by simp
  have n: "literalRegExp ''('' (if caseSensitive (defaultOptions\<lparr>regex := True\<rparr>) then ''g'' else ''gi'')
      = None"
    by (simp add: literalRegExp_def regexSpecial_def defaultOptions_def)
  have n': "literalRegExp ''('' ''gi'' = None"
    by (simp add: literalRegExp_def regexSpecial_def)
  from invalid_regex_no_match [where newRegExp = literalRegExp and searchText = "''(''"
      and opts = "defaultOptions\<lparr>regex := True\<rparr>" and b = "new_LineBuffer ''f(x)'' [LF]"
      and startPosition = "\<lparr>line = 0, column = 0\<rparr>", OF r n] r n'
  show ?thesis
    by simp
qed

section \<open>The command history\<close>

lemma getTextRange_total:
  assumes "lines b \<noteq> []"
  shows "\<exists>t. getTextRange b rng = Inr t"
proof -
  from validateRange_total [OF assms, of rng] obtain s e
    where "validateRange b rng = Inr \<lparr>start = s, end' = e\<rparr>" by blast
  then show ?thesis by (simp add: getTextRange_def Let_def)
qed

lemma command_execute_total:
  "buffer_inv b \<Longrightarrow> \<exists>c1 b1. command_execute c b = Inr (c1, b1) \<and> buffer_inv b1 \<and> idle c1 = idle c"
  "buffer_inv b \<Longrightarrow> \<exists>cs1 b1. commands_execute cs b = Inr (cs1, b1) \<and> buffer_inv b1
      \<and> map idle cs1 = map idle cs"
proof (induction c b and cs b rule: command_execute_commands_execute.induct)
  case (1 l r t p a ex un b)
  then have "lines b \<noteq> []" by (simp add: buffer_inv_def)
  from getTextRange_total [OF this, of r] obtain previous
    where g: "getTextRange b r = Inr previous" by blast
  from replaceText_total [OF "1.prems", of r t] obtain actual b1
    where "replaceText b r t = Inr (actual, b1)" "buffer_inv b1" by blast
  with g show ?case by simp
next
  case (2 i l cs ex un b)
  from "2.IH" [OF "2.prems"] show ?case by auto
next
  case (3 b)
  then show ?case by simp
next
  case (4 c cs b)
  from "4.IH"(1) [OF "4.prems"] obtain c1 b1
    where c: "command_execute c b = Inr (c1, b1)" and i1: "buffer_inv b1"
      and id1: "idle c1 = idle c" by blast
  from "4.IH"(2) [OF c refl i1] obtain cs1 b2
    where "commands_execute cs b1 = Inr (cs1, b2)" "buffer_inv b2" "map idle cs1 = map idle cs"
    by blast
  with c id1 show ?case by simp
qed

lemma history_execute_total:
  assumes "buffer_inv b"
  shows "\<exists>c1 b1. command_execute c b = Inr (c1, b1) \<and> buffer_inv b1 \<and> idle c1 = idle c
    \<and> history_execute h c b =
        Inr (h\<lparr>undoStack := (if int (length (undoStack h @ [c1])) > maxStackSize h
                              then tl (undoStack h @ [c1]) else undoStack h @ [c1]),
               redoStack := []\<rparr>, b1)"
proof -
  from command_execute_total(1) [OF assms, of c] obtain c1 b1
    where "command_execute c b = Inr (c1, b1)" "buffer_inv b1" "idle c1 = idle c" by blast
  then show ?thesis by (simp add: history_execute_def Let_def)
qed

text \<open>
  Claim C5. In every buffer state and for every history and command,
  \<open>CommandHistory.execute\<close> returns, and right after it the redo stack is empty and
  \<open>canRedo()\<close> is false, whatever the redo stack held before.
\<close>

theorem execute_clears_redo:
  assumes "buffer_state b"
  shows "\<exists>h1 b1. history_execute h command b = Inr (h1, b1) \<and> redoStack h1 = [] \<and> \<not> canRedo h1"
proof -
  from assms have "buffer_inv b" by (rule buffer_state_inv)
  from history_execute_total [OF this, of command h] show ?thesis
    by (auto simp: canRedo_def)
qed

theorem execute_clears_redo_witness:
  "buffer_state (new_LineBuffer ''abc'' [LF])
   \<and> canRedo \<lparr>undoStack = [],
        redoStack = [new_TextEditCommand \<lparr>start = \<lparr>line = 0, column = 0\<rparr>,
                                          end' = \<lparr>line = 0, column = 0\<rparr>\<rparr> ''Y'' ''Edit Text''],
        maxStackSize = 1000\<rparr>
   \<and> (\<exists>h1 b1. history_execute
          \<lparr>undoStack = [], redoStack = [new_TextEditCommand \<lparr>start = \<lparr>line = 0, column = 0\<rparr>,
                                 end' = \<lparr>line = 0, column = 0\<rparr>\<rparr> ''Y'' ''Edit Text''],
            maxStackSize = 1000\<rparr>
          (new_TextEditCommand \<lparr>start = \<lparr>line = 0, column = 0\<rparr>,
                                end' = \<lparr>line = 0, column = 0\<rparr>\<rparr> ''X'' ''Edit Text'')
          (new_LineBuffer ''abc'' [LF]) = Inr (h1, b1)
        \<and> redoStack h1 = [] \<and> \<not> canRedo h1)"
  using execute_clears_redo [OF constructed [of "''abc''" "[LF]"],
      where h = "\<lparr>undoStack = [],
        redoStack = [new_TextEditCommand \<lparr>start = \<lparr>line = 0, column = 0\<rparr>,
                                          end' = \<lparr>line = 0, column = 0\<rparr>\<rparr> ''Y'' ''Edit Text''],
        maxStackSize = 1000\<rparr>"
      and command = "new_TextEditCommand \<lparr>start = \<lparr>line = 0, column = 0\<rparr>,
                                end' = \<lparr>line = 0, column = 0\<rparr>\<rparr> ''X'' ''Edit Text''"]
    constructed [of "''abc''" "[LF]"]
  by (simp add: canRedo_def)

lemma push_trim:
  assumes "length U \<le> m"
  shows "(if int (length (U @ [c])) > int m then tl (U @ [c]) else U @ [c])
       = drop (length U + 1 - m) (U @ [c])"
proof (cases "length U = m")
  case True
  then have d: "length U + 1 - m = Suc 0" by simp
  have "int (length (U @ [c])) > int m" using True by simp
  then have "(if int (length (U @ [c])) > int m then tl (U @ [c]) else U @ [c]) = tl (U @ [c])"
    by (simp only: if_True)
  also have "\<dots> = drop (Suc 0) (U @ [c])"
    by (simp only: drop_Suc drop_0)
  finally show ?thesis unfolding d .
next
  case False
  with assms have "length U + 1 - m = 0" by simp
  with False assms show ?thesis by simp
qed

lemma drop_append_le: "n \<le> length xs \<Longrightarrow> drop n xs @ ys = drop n (xs @ ys)"
  by simp

lemma history_executeAll_stack:
  assumes "buffer_inv b" "maxStackSize h = int m" "length (undoStack h) \<le> m"
  shows "\<exists>h1 b1. history_executeAll h cmds b = Inr (h1, b1) \<and> buffer_inv b1
    \<and> maxStackSize h1 = int m \<and> length (undoStack h1) \<le> m
    \<and> map idle (undoStack h1)
        = drop (length (undoStack h) + length cmds - m) (map idle (undoStack h) @ map idle cmds)"
  using assms
proof (induction cmds arbitrary: h b)
  case Nil
  then show ?case by simp
next
  case (Cons c cs)
  let ?U = "undoStack h"
  let ?d = "length ?U + 1 - m"
  from history_execute_total [OF Cons.prems(1), of c h] obtain c1 b1
    where inv1: "buffer_inv b1" and id1: "idle c1 = idle c"
      and ex: "history_execute h c b =
        Inr (h\<lparr>undoStack := (if int (length (?U @ [c1])) > maxStackSize h
                              then tl (?U @ [c1]) else ?U @ [c1]),
               redoStack := []\<rparr>, b1)"
    by blast
  define h1 where "h1 = h\<lparr>undoStack := drop ?d (?U @ [c1]), redoStack := []\<rparr>"
  have ex1: "history_execute h c b = Inr (h1, b1)"
    unfolding ex h1_def Cons.prems(2) push_trim [OF Cons.prems(3)] ..
  have m1: "maxStackSize h1 = int m" using Cons.prems(2) by (simp add: h1_def)
  have len1: "length (undoStack h1) = length ?U + 1 - ?d" by (simp add: h1_def)
  then have le1: "length (undoStack h1) \<le> m" using Cons.prems(3) by linarith
  have "undoStack h1 = drop ?d (?U @ [c1])" by (simp add: h1_def)
  then have idle1: "map idle (undoStack h1) = drop ?d (map idle ?U @ [idle c])"
    by (simp only: drop_map [symmetric] map_append list.map id1)
  from Cons.IH [OF inv1 m1 le1] obtain h2 b2
    where run: "history_executeAll h1 cs b1 = Inr (h2, b2)" and inv2: "buffer_inv b2"
      and m2: "maxStackSize h2 = int m" and le2: "length (undoStack h2) \<le> m"
      and st: "map idle (undoStack h2)
        = drop (length (undoStack h1) + length cs - m) (map idle (undoStack h1) @ map idle cs)"
    by blast
  define X where "X = map idle ?U @ [idle c] @ map idle cs"
  have dle: "?d \<le> length (map idle ?U @ [idle c])" by simp
  have a: "map idle (undoStack h1) @ map idle cs = drop ?d X"
    unfolding idle1 X_def using drop_append_le [OF dle, of "map idle cs"]
    by (simp only: append_assoc)
  have n: "length (undoStack h1) + length cs - m + ?d = length ?U + length (c # cs) - m"
    using len1 Cons.prems(3) by (cases "length ?U = m") simp_all
  have "map idle (undoStack h2) = drop (length (undoStack h1) + length cs - m) (drop ?d X)"
    unfolding st a ..
  also have "\<dots> = drop (length (undoStack h1) + length cs - m + ?d) X"
    by (simp only: drop_drop)
  also have "\<dots> = drop (length ?U + length (c # cs) - m) X"
    unfolding n ..
  also have "X = map idle ?U @ map idle (c # cs)"
    by (simp add: X_def)
  finally have "map idle (undoStack h2)
      = drop (length ?U + length (c # cs) - m) (map idle ?U @ map idle (c # cs))" .
  with ex1 run inv2 m2 le2 show ?case by simp
qed

text \<open>
  Claim C6. A history with maximum stack size \<open>m \<ge> 0\<close> whose undo stack holds at most
  \<open>m\<close> entries (a new history has none) and that executes \<open>m + k\<close> commands ends with
  exactly \<open>m\<close> entries on the undo stack: the last \<open>m\<close> of those commands, in their order
  (each entry is its command after execution; \<open>idle\<close> takes both back to the command as
  constructed). What was discarded is older: the \<open>k\<close> oldest of the commands and whatever
  the stack held before.
\<close>

theorem stack_bound_evicts_oldest:
  assumes "buffer_state b" "0 \<le> maxStackSize h"
    and "length (undoStack h) \<le> nat (maxStackSize h)"
    and "length cmds = nat (maxStackSize h) + k"
  shows "\<exists>h1 b1. history_executeAll h cmds b = Inr (h1, b1)
    \<and> maxStackSize h1 = maxStackSize h
    \<and> length (undoStack h1) = nat (maxStackSize h)
    \<and> map idle (undoStack h1) = drop k (map idle cmds)"
proof -
  let ?m = "nat (maxStackSize h)"
  from assms(1) have inv: "buffer_inv b" by (rule buffer_state_inv)
  have m: "maxStackSize h = int ?m" using assms(2) by simp
  from history_executeAll_stack [OF inv m assms(3), of cmds] obtain h1 b1
    where run: "history_executeAll h cmds b = Inr (h1, b1)"
      and m1: "maxStackSize h1 = int ?m"
      and st: "map idle (undoStack h1)
        = drop (length (undoStack h) + length cmds - ?m) (map idle (undoStack h) @ map idle cmds)"
    by blast
  have "length (undoStack h) + length cmds - ?m = length (map idle (undoStack h)) + k"
    using assms(4) by simp
  then have st': "map idle (undoStack h1) = drop k (map idle cmds)"
    unfolding st by (simp only: drop_append) simp
  from arg_cong [OF st', of length] assms(4) have "length (undoStack h1) = ?m"
    by simp
  with run st' m1 m show ?thesis by simp
qed

theorem stack_bound_evicts_oldest_witness:
  "buffer_state (new_LineBuffer ''abc'' [LF])
   \<and> (0::int) \<le> maxStackSize (new_CommandHistory 2)
   \<and> length (undoStack (new_CommandHistory 2)) \<le> nat (maxStackSize (new_CommandHistory 2))
   \<and> length [createInsertTextCommand \<lparr>line = 0, column = 0\<rparr> ''A'',
              createInsertTextCommand \<lparr>line = 0, column = 0\<rparr> ''B'',
              createInsertTextCommand \<lparr>line = 0, column = 0\<rparr> ''C'']
       = nat (maxStackSize (new_CommandHistory 2)) + 1
   \<and> (\<exists>h1 b1. history_executeAll (new_CommandHistory 2)
          [createInsertTextCommand \<lparr>line = 0, column = 0\<rparr> ''A'',
           createInsertTextCommand \<lparr>line = 0, column = 0\<rparr> ''B'',
           createInsertTextCommand \<lparr>line = 0, column = 0\<rparr> ''C'']
          (new_LineBuffer ''abc'' [LF]) = Inr (h1, b1)
        \<and> length (undoStack h1) = 2
        \<and> map idle (undoStack h1) =
            [createInsertTextCommand \<lparr>line = 0, column = 0\<rparr> ''B'',
             createInsertTextCommand \<lparr>line = 0, column = 0\<rparr> ''C''])"
proof -
  let ?cmds = "[createInsertTextCommand \<lparr>line = 0, column = 0\<rparr> ''A'',
                createInsertTextCommand \<lparr>line = 0, column = 0\<rparr> ''B'',
                createInsertTextCommand \<lparr>line = 0, column = 0\<rparr> ''C'']"
  let ?h = "new_CommandHistory 2"
  have st: "buffer_state (new_LineBuffer ''abc'' [LF])" by (rule constructed)
  have m: "(0::int) \<le> maxStackSize ?h" by (simp add: new_CommandHistory_def)
  have u: "length (undoStack ?h) \<le> nat (maxStackSize ?h)" by (simp add: new_CommandHistory_def)
  have len: "length ?cmds = nat (maxStackSize ?h) + 1" by (simp add: new_CommandHistory_def)
  have d: "drop 1 (map idle ?cmds) =
      [createInsertTextCommand \<lparr>line = 0, column = 0\<rparr> ''B'',
       createInsertTextCommand \<lparr>line = 0, column = 0\<rparr> ''C'']"
    by (simp add: createInsertTextCommand_def new_TextEditCommand_def)
  have two: "nat (maxStackSize ?h) = 2" by (simp add: new_CommandHistory_def)
  from stack_bound_evicts_oldest [OF st m u len] obtain h1 b1
    where "history_executeAll ?h ?cmds (new_LineBuffer ''abc'' [LF]) = Inr (h1, b1)"
      and "length (undoStack h1) = nat (maxStackSize ?h)"
      and "map idle (undoStack h1) = drop 1 (map idle ?cmds)"
    by blast
  then have "\<exists>h1 b1. history_executeAll ?h ?cmds (new_LineBuffer ''abc'' [LF]) = Inr (h1, b1)
      \<and> length (undoStack h1) = 2
      \<and> map idle (undoStack h1) =
          [createInsertTextCommand \<lparr>line = 0, column = 0\<rparr> ''B'',
           createInsertTextCommand \<lparr>line = 0, column = 0\<rparr> ''C'']"
    unfolding d two by (intro exI conjI)
  with st m u len show ?thesis by (intro conjI)
qed

text \<open>
  Claim C1 (the code departs from it). One \<open>TextEditCommand\<close> whose range is given
  backwards, \<open>{start: (0,4), end: (0,1)}\<close> with new text \<open>X\<close>, on the buffer \<open>abcdef\<close>:
  after \<open>execute\<close> the text is \<open>aefX\<close>; \<open>undo\<close> gives \<open>aefbcd\<close>, not \<open>abcdef\<close>; \<open>redo\<close> then
  gives \<open>acdX\<close>, not the text after the execution. \<open>replaceText\<close> deletes the validated
  (swapped) range but inserts at the unvalidated \<open>range.start\<close>.
\<close>

theorem undo_redo_reversed_range:
  "bindE (history_execute (new_CommandHistory 1000)
            (new_TextEditCommand \<lparr>start = \<lparr>line = 0, column = 4\<rparr>,
                                  end' = \<lparr>line = 0, column = 1\<rparr>\<rparr> ''X'' ''Edit Text'')
            (new_LineBuffer ''abcdef'' [LF])) (\<lambda>(h1, b1).
   bindE (history_undo h1 b1) (\<lambda>(u, h2, b2).
   bindE (history_redo h2 b2) (\<lambda>(r, h3, b3).
     Inr (getText b1, u, getText b2, r, getText b3))))
   = Inr (''aefX'', True, ''aefbcd'', True, ''acdX'')"
  by code_simp

end
